theory Spec2Isabelle
  imports Main "HOL-Library.Word"
begin

section \<open>The kstr string library (kstr.c) as HOL functions\<close>

subsection \<open>Machine types, faults and the host environment\<close>

text \<open>
  \<^verbatim>\<open>size_t\<close> is a 64-bit unsigned integer: addition, subtraction and multiplication wrap
  around, division and comparison are unsigned.  A byte is a \<^typ>\<open>char\<close>, a buffer is a
  list of bytes, and the C string a \<^verbatim>\<open>char const *\<close> points to is the bytes before the
  first nul byte.
\<close>

type_synonym size_t = "64 word"

text \<open>
  \<^verbatim>\<open>kstr_abort\<close> calls \<^verbatim>\<open>abort()\<close>, which does not return: the call ends in \<open>Abort\<close>.
  A store or load outside the allocated buffer has no defined behaviour in C; the model
  makes it the value \<open>Fault\<close> instead of computing on.
\<close>

datatype error = Abort | Fault

text \<open>
  A call that has a loop may not return at all: \<open>None\<close>.  Otherwise it ends in an error
  or returns the updated string object.
\<close>

type_synonym 'a outcome = "(error + 'a) option"

text \<open>
  The allocator of the host is a parameter: \<open>alloc_ok n\<close> tells whether a request for
  \<open>n\<close> bytes (by \<^verbatim>\<open>malloc\<close>, \<^verbatim>\<open>realloc\<close> or \<^verbatim>\<open>strdup\<close>) succeeds, and \<open>junk i\<close> is the
  indeterminate byte found at offset \<open>i\<close> of memory that was allocated and not yet written.
\<close>

record env =
  alloc_ok :: "nat \<Rightarrow> bool"
  junk :: "nat \<Rightarrow> char"

definition uninit :: "env \<Rightarrow> nat \<Rightarrow> nat \<Rightarrow> string" where
  "uninit e off n = map (junk e) [off ..< off + n]"

definition malloc_buf :: "env \<Rightarrow> nat \<Rightarrow> string option" where
  "malloc_buf e n = (if alloc_ok e n then Some (uninit e 0 n) else None)"

definition realloc_buf :: "env \<Rightarrow> string \<Rightarrow> nat \<Rightarrow> string option" where
  "realloc_buf e buf n =
     (if alloc_ok e n
      then Some (take n buf @ uninit e (length buf) (n - length buf))
      else None)"

text \<open>Storing the bytes \<open>bs\<close> at offset \<open>off\<close> of a buffer; \<open>None\<close> when out of bounds.\<close>

definition store :: "string \<Rightarrow> nat \<Rightarrow> string \<Rightarrow> string option" where
  "store buf off bs =
     (if off + length bs \<le> length buf
      then Some (take off buf @ bs @ drop (off + length bs) buf)
      else None)"

definition nul :: char where
  "nul = CHR 0x00"

definition ESC :: char where
  "ESC = CHR 0x1B"

text \<open>The C string that starts at the first byte of \<open>buf\<close>, when the buffer holds a nul.\<close>

definition c_str :: "string \<Rightarrow> string option" where
  "c_str buf = (if nul \<in> set buf then Some (takeWhile (\<lambda>c. c \<noteq> nul) buf) else None)"

text \<open>
  A \<^verbatim>\<open>char const *\<close> argument is the list of bytes it points to, implicitly followed by
  a terminator; \<^verbatim>\<open>strlen\<close> counts up to the first nul byte.
\<close>

definition strlen :: "string \<Rightarrow> size_t" where
  "strlen s = of_nat (length (takeWhile (\<lambda>c. c \<noteq> nul) s))"

subsection \<open>The string object\<close>

record kstr =
  data_size :: size_t
  used :: size_t
  width :: size_t
  basename :: "string option"
  data :: string

definition sizeof_kstr :: nat where
  "sizeof_kstr = 40"

definition kstr_available :: "kstr \<Rightarrow> size_t" where
  "kstr_available this = data_size this - used this"

definition grow_factor :: size_t where
  "grow_factor = 2"

definition kstr_grow :: "env \<Rightarrow> kstr \<Rightarrow> error + kstr" where
  "kstr_grow e this =
     (if data_size this = - 1 then Inl Abort
      else
        let new_data_size =
              (if data_size this > (- 1) div grow_factor then - 1
               else data_size this * grow_factor)
        in case realloc_buf e (data this) (unat new_data_size) of
             None \<Rightarrow> Inl Abort
           | Some new_data \<Rightarrow>
               Inr (this\<lparr>data_size := new_data_size, data := new_data\<rparr>))"

text \<open>
  The loop \<^verbatim>\<open>while (kstr_available(this) < count) if (kstr_grow(this) == NULL) return NULL;\<close>
  that \<^verbatim>\<open>kstr_add_chars\<close> and \<^verbatim>\<open>kstr_add_vfmt\<close> both start with.
\<close>

partial_function (option) grow_until :: "env \<Rightarrow> kstr \<Rightarrow> size_t \<Rightarrow> kstr outcome" where
  "grow_until e this count =
     (if kstr_available this < count
      then (case kstr_grow e this of
              Inl err \<Rightarrow> Some (Inl err)
            | Inr this' \<Rightarrow> grow_until e this' count)
      else Some (Inr this))"


definition kstr_add_chars ::
  "env \<Rightarrow> kstr \<Rightarrow> string option \<Rightarrow> size_t \<Rightarrow> bool \<Rightarrow> kstr outcome" where
  "kstr_add_chars e this chars count visible =
     (if chars = None \<or> count = 0 then Some (Inr this)
      else
        case grow_until e this count of
          None \<Rightarrow> None
        | Some (Inl err) \<Rightarrow> Some (Inl err)
        | Some (Inr this1) \<Rightarrow>
            if used this1 = 0 \<or> length (the chars) < unat count then Some (Inl Fault)
            else
              (case store (data this1) (unat (used this1) - 1)
                      (take (unat count) (the chars)) of
                 None \<Rightarrow> Some (Inl Fault)
               | Some data1 \<Rightarrow>
                   let used' = used this1 + count in
                   if used' = 0 then Some (Inl Fault)
                   else
                     (case store data1 (unat used' - 1) [nul] of
                        None \<Rightarrow> Some (Inl Fault)
                      | Some data2 \<Rightarrow>
                          Some (Inr (this1\<lparr>data := data2, used := used',
                             width := (if visible then width this1 + count else width this1),
                             basename := None\<rparr>)))))"

definition kstr_add_text :: "env \<Rightarrow> kstr \<Rightarrow> string option \<Rightarrow> kstr outcome" where
  "kstr_add_text e this text =
     kstr_add_chars e this text (case text of None \<Rightarrow> 0 | Some t \<Rightarrow> strlen t) True"

subsection \<open>Styling codes\<close>

text \<open>
  \<^verbatim>\<open>kstr_color\<close> is a C enumeration: its values are integers, and any integer of the
  enumeration's underlying type can be passed.  \<^verbatim>\<open>(uintmax_t) color\<close> is the value
  modulo \<open>2 ^ 64\<close>.
\<close>

type_synonym kstr_color = int

definition kstr_color_default :: kstr_color where "kstr_color_default = 0"
definition kstr_color_black :: kstr_color where "kstr_color_black = 1"
definition kstr_color_blue :: kstr_color where "kstr_color_blue = 2"
definition kstr_color_cyan :: kstr_color where "kstr_color_cyan = 3"
definition kstr_color_green :: kstr_color where "kstr_color_green = 4"
definition kstr_color_magenta :: kstr_color where "kstr_color_magenta = 5"
definition kstr_color_red :: kstr_color where "kstr_color_red = 6"
definition kstr_color_white :: kstr_color where "kstr_color_white = 7"
definition kstr_color_yellow :: kstr_color where "kstr_color_yellow = 8"
definition kstr_num_colors :: kstr_color where "kstr_num_colors = 9"

definition uintmax :: "int \<Rightarrow> 64 word" where
  "uintmax i = word_of_int i"

definition bg_codes :: "string list" where
  "bg_codes =
     [ESC # ''[49m'', ESC # ''[40m'', ESC # ''[44m'', ESC # ''[46m'', ESC # ''[42m'',
      ESC # ''[45m'', ESC # ''[41m'', ESC # ''[47m'', ESC # ''[43m'']"

definition fg_codes :: "string list" where
  "fg_codes =
     [ESC # ''[39m'', ESC # ''[30m'', ESC # ''[34m'', ESC # ''[36m'', ESC # ''[32m'',
      ESC # ''[35m'', ESC # ''[31m'', ESC # ''[37m'', ESC # ''[33m'']"

definition kstr_add_bg :: "env \<Rightarrow> kstr \<Rightarrow> kstr_color \<Rightarrow> kstr outcome" where
  "kstr_add_bg e this color =
     (if uintmax color \<ge> uintmax kstr_num_colors then Some (Inl Abort)
      else
        let chars = bg_codes ! unat (uintmax color)
        in kstr_add_chars e this (Some chars) (strlen chars) False)"

definition kstr_add_fg :: "env \<Rightarrow> kstr \<Rightarrow> kstr_color \<Rightarrow> kstr outcome" where
  "kstr_add_fg e this color =
     (if uintmax color \<ge> uintmax kstr_num_colors then Some (Inl Abort)
      else
        let chars = fg_codes ! unat (uintmax color)
        in kstr_add_chars e this (Some chars) (strlen chars) False)"

definition kstr_add_bold :: "env \<Rightarrow> kstr \<Rightarrow> bool \<Rightarrow> kstr outcome" where
  "kstr_add_bold e this bold =
     (let chars = (if bold then ESC # ''[1m'' else ESC # ''[22m'')
      in kstr_add_chars e this (Some chars) (strlen chars) False)"

definition kstr_add_reset :: "env \<Rightarrow> kstr \<Rightarrow> kstr outcome" where
  "kstr_add_reset e this =
     (let chars = ESC # ''[0m''
      in kstr_add_chars e this (Some chars) (strlen chars) False)"

subsection \<open>Formatted text\<close>

text \<open>
  Modelled from the spec: \<^verbatim>\<open>vsnprintf\<close> belongs to the C library of the host, not to the
  repository.  A format string with its argument list is identified with what the host's
  \<^verbatim>\<open>printf\<close> family makes of it: the bytes it renders, or a failure.  \<open>None\<close> is the
  null format pointer, which the spec has produce empty content and which the host
  reports as a failure, like any other format it cannot render: a negative result.
  The result is an \<^verbatim>\<open>int\<close>, so a rendering longer than \<open>INT_MAX\<close> also fails.
  A call with a buffer of \<open>n > 0\<close> bytes stores at most \<open>n - 1\<close> rendered bytes and a
  terminator; a failed call stores the terminator only.
\<close>

datatype format = Render_fails | Renders string

definition INT_MAX :: int where
  "INT_MAX = 2147483647"

definition vsnprintf_ret :: "format option \<Rightarrow> int" where
  "vsnprintf_ret fmt =
     (case fmt of
        None \<Rightarrow> - 1
      | Some Render_fails \<Rightarrow> - 1
      | Some (Renders bs) \<Rightarrow> if int (length bs) \<le> INT_MAX then int (length bs) else - 1)"

definition vsnprintf_out :: "nat \<Rightarrow> format option \<Rightarrow> string" where
  "vsnprintf_out n fmt =
     (if n = 0 then []
      else
        case fmt of
          Some (Renders bs) \<Rightarrow>
            if int (length bs) \<le> INT_MAX then take (n - 1) bs @ [nul] else [nul]
        | _ \<Rightarrow> [nul])"

definition kstr_add_vfmt :: "env \<Rightarrow> kstr \<Rightarrow> format option \<Rightarrow> kstr outcome" where
  "kstr_add_vfmt e this fmt =
     (let len = vsnprintf_ret fmt;
          count = (if len < 0 then 0 else word_of_int len)
      in case grow_until e this count of
           None \<Rightarrow> None
         | Some (Inl err) \<Rightarrow> Some (Inl err)
         | Some (Inr this1) \<Rightarrow>
             if used this1 = 0 then Some (Inl Fault)
             else
               (case store (data this1) (unat (used this1) - 1)
                       (vsnprintf_out (unat (count + 1)) fmt) of
                  None \<Rightarrow> Some (Inl Fault)
                | Some data1 \<Rightarrow>
                    Some (Inr (this1\<lparr>data := data1, used := used this1 + count,
                       width := width this1 + count, basename := None\<rparr>))))"

definition kstr_add_fmt :: "env \<Rightarrow> kstr \<Rightarrow> format option \<Rightarrow> kstr outcome" where
  "kstr_add_fmt e this fmt = kstr_add_vfmt e this fmt"

subsection \<open>Reset, set, new, copy\<close>

definition kstr_reset :: "kstr \<Rightarrow> error + kstr" where
  "kstr_reset this =
     (case store (data this) 0 [nul] of
        None \<Rightarrow> Inl Fault
      | Some data1 \<Rightarrow> Inr (this\<lparr>data := data1, used := 1, width := 0, basename := None\<rparr>))"

definition kstr_set_text :: "env \<Rightarrow> kstr \<Rightarrow> string option \<Rightarrow> kstr outcome" where
  "kstr_set_text e this text =
     (case kstr_reset this of
        Inl err \<Rightarrow> Some (Inl err)
      | Inr this1 \<Rightarrow> kstr_add_text e this1 text)"

definition kstr_set_vfmt :: "env \<Rightarrow> kstr \<Rightarrow> format option \<Rightarrow> kstr outcome" where
  "kstr_set_vfmt e this fmt =
     (case kstr_reset this of
        Inl err \<Rightarrow> Some (Inl err)
      | Inr this1 \<Rightarrow> kstr_add_vfmt e this1 fmt)"

definition kstr_set_fmt :: "env \<Rightarrow> kstr \<Rightarrow> format option \<Rightarrow> kstr outcome" where
  "kstr_set_fmt e this fmt = kstr_set_vfmt e this fmt"

definition init_size :: size_t where
  "init_size = 64"

definition kstr_new :: "env \<Rightarrow> string option \<Rightarrow> kstr outcome" where
  "kstr_new e text =
     (if \<not> alloc_ok e sizeof_kstr then Some (Inl Abort)
      else
        case malloc_buf e (unat init_size) of
          None \<Rightarrow> Some (Inl Abort)
        | Some buf \<Rightarrow>
            (case store buf 0 [nul] of
               None \<Rightarrow> Some (Inl Fault)
             | Some data0 \<Rightarrow>
                 kstr_add_text e
                   \<lparr>data_size = init_size, used = 1, width = 0, basename = None,
                    data = data0\<rparr> text))"

definition kstr_copy :: "env \<Rightarrow> kstr \<Rightarrow> error + kstr" where
  "kstr_copy e this =
     (if \<not> alloc_ok e sizeof_kstr then Inl Abort
      else
        case malloc_buf e (unat (data_size this)) of
          None \<Rightarrow> Inl Abort
        | Some buf \<Rightarrow>
            if length (data this) < unat (data_size this) then Inl Fault
            else
              (case store buf 0 (take (unat (data_size this)) (data this)) of
                 None \<Rightarrow> Inl Fault
               | Some data1 \<Rightarrow>
                   Inr \<lparr>data_size = data_size this, used = used this, width = width this,
                        basename = None, data = data1\<rparr>))"

subsection \<open>Queries and the cached basename\<close>

definition kstr_size :: "kstr \<Rightarrow> size_t" where
  "kstr_size this = used this"

definition kstr_width :: "kstr \<Rightarrow> size_t" where
  "kstr_width this = width this"

text \<open>
  \<^verbatim>\<open>kstr_get\<close> returns the pointer \<^verbatim>\<open>this->data\<close>; its value for the caller is the C
  string found there (\<open>None\<close> when the buffer holds no terminator at all).
\<close>

definition kstr_get :: "kstr \<Rightarrow> string option" where
  "kstr_get this = c_str (data this)"

definition kstr_get_copy :: "env \<Rightarrow> kstr \<Rightarrow> error + string" where
  "kstr_get_copy e this =
     (case c_str (data this) of
        None \<Rightarrow> Inl Fault
      | Some s \<Rightarrow> if alloc_ok e (length s + 1) then Inr s else Inl Abort)"

text \<open>
  Modelled from the spec: \<^verbatim>\<open>basename()\<close> of \<^verbatim>\<open>libgen.h\<close> belongs to the C library, not
  to the repository.  It follows the POSIX rule the spec names: trailing separators are
  ignored, the empty path gives a single dot, a path of separators only gives a single
  separator, and otherwise the result is what follows the last remaining separator.
\<close>

definition posix_basename :: "string \<Rightarrow> string" where
  "posix_basename path =
     (if path = [] then ''.''
      else
        let p = rev (dropWhile (\<lambda>c. c = CHR ''/'') (rev path))
        in if p = [] then ''/''
           else rev (takeWhile (\<lambda>c. c \<noteq> CHR ''/'') (rev p)))"

text \<open>The result is the returned string together with the updated object.\<close>

definition kstr_basename :: "env \<Rightarrow> kstr \<Rightarrow> error + (string \<times> kstr)" where
  "kstr_basename e this =
     (case basename this of
        Some b \<Rightarrow> Inr (b, this)
      | None \<Rightarrow>
          (case kstr_get_copy e this of
             Inl err \<Rightarrow> Inl err
           | Inr data_copy \<Rightarrow>
               let b = posix_basename data_copy
               in if alloc_ok e (length b + 1) then Inr (b, this\<lparr>basename := Some b\<rparr>)
                  else Inl Abort))"


subsection \<open>Calls on a live string, and sequences of calls\<close>

datatype call =
    Set_text "string option"
  | Set_fmt "format option"
  | Add_text "string option"
  | Add_fmt "format option"
  | Add_bold bool
  | Add_fg kstr_color
  | Add_bg kstr_color
  | Add_reset

fun kstr_call :: "env \<Rightarrow> call \<Rightarrow> kstr \<Rightarrow> kstr outcome" where
  "kstr_call e (Set_text t) this = kstr_set_text e this t"
| "kstr_call e (Set_fmt f) this = kstr_set_fmt e this f"
| "kstr_call e (Add_text t) this = kstr_add_text e this t"
| "kstr_call e (Add_fmt f) this = kstr_add_fmt e this f"
| "kstr_call e (Add_bold b) this = kstr_add_bold e this b"
| "kstr_call e (Add_fg c) this = kstr_add_fg e this c"
| "kstr_call e (Add_bg c) this = kstr_add_bg e this c"
| "kstr_call e Add_reset this = kstr_add_reset e this"

text \<open>
  A sequence of calls on one string; each call meets the allocator in the state \<open>e\<close>
  that comes with it.  The sequence stops at the first call that does not return.
\<close>

fun kstr_calls :: "(env \<times> call) list \<Rightarrow> kstr \<Rightarrow> kstr outcome" where
  "kstr_calls [] this = Some (Inr this)"
| "kstr_calls ((e, c) # cs) this =
     (case kstr_call e c this of
        Some (Inr this') \<Rightarrow> kstr_calls cs this'
      | r \<Rightarrow> r)"

subsection \<open>Representation invariant and content\<close>

text \<open>
  The invariant of the data model: the terminator is present and counted, the width is
  at most the content length, the capacity is at least what is used and at least 64;
  and the buffer is \<open>data_size\<close> bytes long.
\<close>

definition kstr_inv :: "kstr \<Rightarrow> bool" where
  "kstr_inv s \<longleftrightarrow>
     1 \<le> used s \<and>
     length (data s) = unat (data_size s) \<and>
     data s ! (unat (used s) - 1) = nul \<and>
     width s \<le> used s - 1 \<and>
     used s \<le> data_size s \<and>
     64 \<le> data_size s"

text \<open>The content bytes: what lies before the terminator at index \<open>used - 1\<close>.\<close>

definition kstr_bytes :: "kstr \<Rightarrow> string" where
  "kstr_bytes s = take (unat (used s) - 1) (data s)"

text \<open>A text argument that is a C string of the 64-bit address space.\<close>

definition c_string :: "string \<Rightarrow> bool" where
  "c_string t \<longleftrightarrow> nul \<notin> set t \<and> length t < 2 ^ 64"

text \<open>The text an optional argument stands for: absent is empty.\<close>

definition text_of :: "string option \<Rightarrow> string" where
  "text_of t = (case t of None \<Rightarrow> [] | Some bs \<Rightarrow> bs)"

text \<open>The number of bytes a format renders: none when rendering fails.\<close>

definition rendered_length :: "format option \<Rightarrow> nat" where
  "rendered_length fmt = (if vsnprintf_ret fmt < 0 then 0 else nat (vsnprintf_ret fmt))"

text \<open>
  Following the spec's words: the width after a sequence of calls is the sum of the byte
  lengths of the visible content, where a set call starts the sum again and a styling
  call adds nothing.
\<close>

fun visible_sum :: "nat \<Rightarrow> call list \<Rightarrow> nat" where
  "visible_sum w [] = w"
| "visible_sum w (Set_text t # cs) = visible_sum (unat (strlen (text_of t))) cs"
| "visible_sum w (Set_fmt f # cs) = visible_sum (rendered_length f) cs"
| "visible_sum w (Add_text t # cs) = visible_sum (w + unat (strlen (text_of t))) cs"
| "visible_sum w (Add_fmt f # cs) = visible_sum (w + rendered_length f) cs"
| "visible_sum w (_ # cs) = visible_sum w cs"


subsection \<open>Auxiliary notions for the proofs\<close>

text \<open>The value of the local variable \<^verbatim>\<open>new_data_size\<close> of \<^verbatim>\<open>kstr_grow\<close>.\<close>

definition new_size :: "size_t \<Rightarrow> size_t" where
  "new_size n = (if n > (- 1) div grow_factor then - 1 else n * grow_factor)"

text \<open>A buffer after the bytes \<open>bs\<close> and a terminator were stored at offset \<open>p\<close>.\<close>

definition spliced :: "string \<Rightarrow> nat \<Rightarrow> string \<Rightarrow> string" where
  "spliced buf p bs = take p buf @ bs @ [nul] @ drop (p + length bs + 1) buf"

text \<open>
  \<open>appended s bs w s'\<close>: the object \<open>s'\<close> is \<open>s\<close> with the bytes \<open>bs\<close> appended to its
  content, of which \<open>w\<close> count as visible; it satisfies the invariant and its buffer
  has not shrunk.
\<close>

definition appended :: "kstr \<Rightarrow> string \<Rightarrow> nat \<Rightarrow> kstr \<Rightarrow> bool" where
  "appended s bs w s' \<longleftrightarrow>
     kstr_inv s' \<and> kstr_bytes s' = kstr_bytes s @ bs \<and>
     unat (used s') = unat (used s) + length bs \<and>
     unat (width s') = unat (width s) + w \<and>
     unat (data_size s) \<le> unat (data_size s')"


text \<open>The bytes a formatted append adds: the rendering, or nothing when it fails.\<close>

definition rendered_bytes :: "format option \<Rightarrow> string" where
  "rendered_bytes fmt =
     (case fmt of
        Some (Renders bs) \<Rightarrow> if int (length bs) \<le> INT_MAX then bs else []
      | _ \<Rightarrow> [])"


text \<open>What one call adds: its bytes, how many of them are visible, and whether it first
  empties the string.\<close>

fun call_bytes :: "call \<Rightarrow> string" where
  "call_bytes (Set_text t) = take (unat (strlen (text_of t))) (text_of t)"
| "call_bytes (Set_fmt f) = rendered_bytes f"
| "call_bytes (Add_text t) = take (unat (strlen (text_of t))) (text_of t)"
| "call_bytes (Add_fmt f) = rendered_bytes f"
| "call_bytes (Add_bold b) = (if b then ESC # ''[1m'' else ESC # ''[22m'')"
| "call_bytes (Add_fg c) = fg_codes ! unat (uintmax c)"
| "call_bytes (Add_bg c) = bg_codes ! unat (uintmax c)"
| "call_bytes Add_reset = ESC # ''[0m''"

fun call_visible :: "call \<Rightarrow> nat" where
  "call_visible (Set_text t) = unat (strlen (text_of t))"
| "call_visible (Set_fmt f) = rendered_length f"
| "call_visible (Add_text t) = unat (strlen (text_of t))"
| "call_visible (Add_fmt f) = rendered_length f"
| "call_visible _ = 0"

fun call_sets :: "call \<Rightarrow> bool" where
  "call_sets (Set_text t) = True"
| "call_sets (Set_fmt f) = True"
| "call_sets _ = False"

text \<open>\<open>stepped c s s'\<close>: the object \<open>s'\<close> is what the call \<open>c\<close> makes of \<open>s\<close>.\<close>

definition stepped :: "call \<Rightarrow> kstr \<Rightarrow> kstr \<Rightarrow> bool" where
  "stepped c s s' \<longleftrightarrow>
     kstr_inv s' \<and>
     kstr_bytes s' = (if call_sets c then [] else kstr_bytes s) @ call_bytes c \<and>
     unat (used s') = (if call_sets c then 1 else unat (used s)) + length (call_bytes c) \<and>
     unat (width s') = (if call_sets c then 0 else unat (width s)) + call_visible c"

text \<open>The styling calls: bold, foreground, background and reset.\<close>

fun styling :: "call \<Rightarrow> bool" where
  "styling (Add_bold b) = True"
| "styling (Add_fg c) = True"
| "styling (Add_bg c) = True"
| "styling Add_reset = True"
| "styling _ = False"

text \<open>A call whose formatted rendering holds a nul byte (as \<^verbatim>\<open>"%c"\<close> with 0 does).\<close>

fun renders_nul :: "call \<Rightarrow> bool" where
  "renders_nul (Set_fmt f) = (nul \<in> set (rendered_bytes f))"
| "renders_nul (Add_fmt f) = (nul \<in> set (rendered_bytes f))"
| "renders_nul _ = False"

text \<open>A call that is a pure no-op: appending an absent or an empty text.\<close>

fun no_op_input :: "call \<Rightarrow> bool" where
  "no_op_input (Add_text t) = (t = None \<or> strlen (text_of t) = 0)"
| "no_op_input _ = False"

text \<open>
  \<open>code_appended r s code\<close>: the outcome \<open>r\<close> of a styling call on \<open>s\<close> is an abort, or it
  is the object \<open>s\<close> with exactly the bytes \<open>code\<close> appended to its content: the size has
  grown by their number and the width is unchanged.
\<close>

definition code_appended :: "kstr outcome \<Rightarrow> kstr \<Rightarrow> string \<Rightarrow> bool" where
  "code_appended r s code \<longleftrightarrow>
     r = Some (Inl Abort) \<or>
     (\<exists>s'. r = Some (Inr s') \<and> kstr_bytes s' = kstr_bytes s @ code \<and>
        unat (kstr_size s') = unat (kstr_size s) + length code \<and>
        kstr_width s' = kstr_width s)"

text \<open>A call whose colour argument, if it has one, is a value of the enumeration.\<close>

fun in_enum :: "call \<Rightarrow> bool" where
  "in_enum (Add_fg c) = (0 \<le> c \<and> c < 9)"
| "in_enum (Add_bg c) = (0 \<le> c \<and> c < 9)"
| "in_enum _ = True"

text \<open>
  The number of bytes in use once the call \<open>c\<close> has returned: what was in use (one byte
  after a set call's reset) and the bytes the call adds.
\<close>

definition call_needs :: "call \<Rightarrow> kstr \<Rightarrow> nat" where
  "call_needs c s = (if call_sets c then 1 else unat (used s)) + length (call_bytes c)"

text \<open>
  The cached basename, when there is one, is the basename of the content that
  \<^verbatim>\<open>kstr_get\<close> returns.
\<close>

definition cache_ok :: "kstr \<Rightarrow> bool" where
  "cache_ok s =
     (case basename s of
        None \<Rightarrow> True
      | Some b \<Rightarrow> (case kstr_get s of None \<Rightarrow> False | Some g \<Rightarrow> b = posix_basename g))"

text \<open>The C string a text argument denotes: its bytes before the first nul.\<close>

definition c_text :: "string \<Rightarrow> string" where
  "c_text t = takeWhile (\<lambda>c. c \<noteq> nul) t"

subsection \<open>A concrete host and concrete strings\<close>

text \<open>A host whose allocator never refuses and whose fresh memory holds question marks.\<close>

definition demo_env :: env where
  "demo_env = \<lparr>alloc_ok = (\<lambda>n. True), junk = (\<lambda>i. CHR ''?'')\<rparr>"

text \<open>A host whose allocator refuses every request.\<close>

definition no_memory :: env where
  "no_memory = \<lparr>alloc_ok = (\<lambda>n. False), junk = (\<lambda>i. CHR ''?'')\<rparr>"

text \<open>The string \<^verbatim>\<open>kstr_new("ab")\<close> on the first host, and the same after \<^verbatim>\<open>kstr_add_bold(s, true)\<close>.\<close>

definition demo_ab :: kstr where
  "demo_ab = \<lparr>data_size = 64, used = 3, width = 2, basename = None,
     data = ''ab'' @ nul # drop 3 (uninit demo_env 0 64)\<rparr>"

definition demo_ab_bold :: kstr where
  "demo_ab_bold = \<lparr>data_size = 64, used = 7, width = 2, basename = None,
     data = ''ab'' @ ESC # ''[1m'' @ nul # drop 7 (uninit demo_env 0 64)\<rparr>"

text \<open>
  The string \<^verbatim>\<open>kstr_new(NULL)\<close> on the first host; the string made from the three bytes
  \<open>a\<close>, nul, \<open>b\<close>; and the empty string after \<^verbatim>\<open>kstr_add_fmt(s, "%c", 0)\<close>, whose
  rendering is a single nul byte.
\<close>

definition demo_empty :: kstr where
  "demo_empty = \<lparr>data_size = 64, used = 1, width = 0, basename = None,
     data = nul # drop 1 (uninit demo_env 0 64)\<rparr>"

definition demo_a :: kstr where
  "demo_a = \<lparr>data_size = 64, used = 2, width = 1, basename = None,
     data = CHR ''a'' # nul # drop 2 (uninit demo_env 0 64)\<rparr>"

definition demo_fmt_nul :: kstr where
  "demo_fmt_nul = \<lparr>data_size = 64, used = 2, width = 1, basename = None,
     data = nul # nul # drop 2 (uninit demo_env 0 64)\<rparr>"

text \<open>
  The string \<^verbatim>\<open>kstr_new("/one/two/file")\<close> on the first host, the same with its basename
  cached, and what \<^verbatim>\<open>kstr_set_text(s, "/four/five/six")\<close> makes of the latter.
\<close>

definition demo_path :: kstr where
  "demo_path = \<lparr>data_size = 64, used = 14, width = 13, basename = None,
     data = ''/one/two/file'' @ nul # drop 14 (uninit demo_env 0 64)\<rparr>"

definition demo_path_cached :: kstr where
  "demo_path_cached = demo_path\<lparr>basename := Some ''file''\<rparr>"

definition demo_six :: kstr where
  "demo_six = \<lparr>data_size = 64, used = 15, width = 14, basename = None,
     data = ''/four/five/six'' @ nul # drop 15 (uninit demo_env 0 64)\<rparr>"

text \<open>
  The string \<^verbatim>\<open>kstr_new("ab")\<close> after one \<^verbatim>\<open>kstr_grow\<close>; a string object whose capacity
  is \<open>2 ^ 63\<close> bytes, so that doubling it overflows; and one whose capacity is the
  maximum size.
\<close>

definition demo_ab_grown :: kstr where
  "demo_ab_grown = demo_ab\<lparr>data_size := 128, data := data demo_ab @ uninit demo_env 64 64\<rparr>"

definition demo_huge :: kstr where
  "demo_huge = \<lparr>data_size = 2 ^ 63, used = 1, width = 0, basename = None,
     data = nul # uninit demo_env 1 (2 ^ 63 - 1)\<rparr>"

definition demo_huge_grown :: kstr where
  "demo_huge_grown = demo_huge\<lparr>data_size := - 1,
     data := data demo_huge @ uninit demo_env (2 ^ 63) (2 ^ 63 - 1)\<rparr>"

text \<open>The string \<^verbatim>\<open>kstr_new("ab")\<close> after \<^verbatim>\<open>kstr_add_fg(s, kstr_color_red)\<close>.\<close>

definition demo_ab_red :: kstr where
  "demo_ab_red = \<lparr>data_size = 64, used = 8, width = 2, basename = None,
     data = ''ab'' @ ESC # ''[31m'' @ nul # drop 8 (uninit demo_env 0 64)\<rparr>"

text \<open>A host with \<open>2 ^ 48\<close> bytes of memory: it refuses any larger request.\<close>

definition demo_host :: env where
  "demo_host = \<lparr>alloc_ok = (\<lambda>n. n < 2 ^ 48), junk = (\<lambda>i. CHR ''?'')\<rparr>"

section \<open>Lemmas: growing, appending, and the effect of each call\<close>


lemma unat_max: "unat (- 1 :: size_t) = 2 ^ 64 - 1"
  by (simp add: unsigned_minus_1_eq_mask mask_eq_exp_minus_1)

lemma unat_lt_max: "unat (x :: size_t) < 2 ^ 64"
  using unsigned_less [of x, where ?'a = nat] by simp

lemma max_half: "unat ((- 1 :: size_t) div grow_factor) = 2 ^ 63 - 1"
  by (simp add: grow_factor_def unat_div)

lemma unat_new_size:
  "unat (new_size n) = (if unat n > 2 ^ 63 - 1 then 2 ^ 64 - 1 else 2 * unat n)"
proof (cases "n > (- 1) div grow_factor")
  case True
  then have "unat n > 2 ^ 63 - 1"
    by (simp add: word_less_nat_alt max_half)
  with True show ?thesis by (simp add: new_size_def unat_max)
next
  case False
  then have le: "unat n \<le> 2 ^ 63 - 1"
    by (simp add: word_less_nat_alt max_half)
  then have "unat n * unat (2 :: size_t) < 2 ^ LENGTH(64)" by simp
  then have "unat (n * 2) = unat n * unat (2 :: size_t)"
    by (simp only: unat_mult_lem [THEN iffD1])
  with False le show ?thesis by (simp add: new_size_def grow_factor_def)
qed

lemma new_size_grows:
  assumes "n \<noteq> - 1" "n \<noteq> 0"
  shows "unat n < unat (new_size n)"
proof -
  have "unat n \<noteq> 2 ^ 64 - 1"
    using assms(1) unat_max by (metis word_unat_eq_iff)
  moreover have "unat n \<noteq> 0"
    using assms(2) by (simp add: unat_eq_0)
  moreover have "unat n < 2 ^ 64" by (rule unat_lt_max)
  ultimately show ?thesis by (simp add: unat_new_size)
qed

lemma kstr_grow_eq:
  "kstr_grow e s =
     (if data_size s = - 1 \<or> \<not> alloc_ok e (unat (new_size (data_size s))) then Inl Abort
      else Inr (s\<lparr>data_size := new_size (data_size s),
                 data := take (unat (new_size (data_size s))) (data s) @
                   uninit e (length (data s))
                     (unat (new_size (data_size s)) - length (data s))\<rparr>))"
  by (simp add: kstr_grow_def new_size_def realloc_buf_def Let_def)


lemma grow_until_enough:
  "\<not> kstr_available s < count \<Longrightarrow> grow_until e s count = Some (Inr s)"
  by (subst grow_until.simps) simp

lemma grow_until_cases:
  assumes "length (data s) = unat (data_size s)" and "data_size s \<noteq> 0"
  shows "grow_until e s count = Some (Inl Abort) \<or>
         (\<exists>n ext. grow_until e s count = Some (Inr (s\<lparr>data_size := n, data := data s @ ext\<rparr>)) \<and>
            unat (data_size s) \<le> unat n \<and>
            length ext = unat n - unat (data_size s) \<and>
            \<not> n - used s < count)"
  using assms
proof (induction "2 ^ 64 - unat (data_size s)" arbitrary: s rule: less_induct)
  case less
  show ?case
  proof (cases "kstr_available s < count")
    case False
    then have "grow_until e s count = Some (Inr (s\<lparr>data_size := data_size s, data := data s @ []\<rparr>))"
      by (simp add: grow_until_enough)
    moreover have "\<not> data_size s - used s < count"
      using False by (simp add: kstr_available_def)
    ultimately show ?thesis by (metis le_refl list.size(3) diff_self_eq_0)
  next
    case True
    show ?thesis
    proof (cases "data_size s = - 1 \<or> \<not> alloc_ok e (unat (new_size (data_size s)))")
      case True
      then have "kstr_grow e s = Inl Abort" by (simp add: kstr_grow_eq)
      with \<open>kstr_available s < count\<close> have "grow_until e s count = Some (Inl Abort)"
        by (subst grow_until.simps) simp
      then show ?thesis by simp
    next
      case False
      let ?n = "new_size (data_size s)"
      let ?ext = "uninit e (length (data s)) (unat ?n - length (data s))"
      let ?s1 = "s\<lparr>data_size := ?n, data := data s @ ?ext\<rparr>"
      have lt: "unat (data_size s) < unat ?n"
        using False less.prems(2) by (simp add: new_size_grows)
      then have tk: "take (unat ?n) (data s) = data s"
        using less.prems(1) by simp
      have g: "kstr_grow e s = Inr ?s1"
        using False tk by (simp add: kstr_grow_eq)
      have step: "grow_until e s count = grow_until e ?s1 count"
        using \<open>kstr_available s < count\<close> g by (subst grow_until.simps) simp
      have len1: "length (data ?s1) = unat (data_size ?s1)"
        using lt less.prems(1) by (simp add: uninit_def)
      have nz1: "data_size ?s1 \<noteq> 0"
        using lt by (auto simp: unat_eq_0 [symmetric])
      have m: "2 ^ 64 - unat (data_size ?s1) < 2 ^ 64 - unat (data_size s)"
        using lt unat_lt_max [of ?n] by simp
      from less.hyps [OF m len1 nz1]
      show ?thesis
      proof
        assume "grow_until e ?s1 count = Some (Inl Abort)"
        with step show ?thesis by simp
      next
        assume "\<exists>n ext. grow_until e ?s1 count =
                  Some (Inr (?s1\<lparr>data_size := n, data := data ?s1 @ ext\<rparr>)) \<and>
                  unat (data_size ?s1) \<le> unat n \<and>
                  length ext = unat n - unat (data_size ?s1) \<and>
                  \<not> n - used ?s1 < count"
        then obtain n ext where
          r: "grow_until e ?s1 count = Some (Inr (?s1\<lparr>data_size := n, data := data ?s1 @ ext\<rparr>))"
          and le: "unat (data_size ?s1) \<le> unat n"
          and lx: "length ext = unat n - unat (data_size ?s1)"
          and av: "\<not> n - used ?s1 < count"
          by blast
        have "grow_until e s count = Some (Inr (s\<lparr>data_size := n, data := data s @ (?ext @ ext)\<rparr>))"
          using step r by simp
        moreover have "unat (data_size s) \<le> unat n" using le lt by simp
        moreover have "length (?ext @ ext) = unat n - unat (data_size s)"
          using lx le lt less.prems(1) by (simp add: uninit_def)
        moreover have "\<not> n - used s < count" using av by simp
        ultimately show ?thesis by blast
      qed
    qed
  qed
qed

lemma grow_until_succeeds:
  assumes "length (data s) = unat (data_size s)" and "data_size s \<noteq> 0"
    and "\<forall>n. alloc_ok e n" and "used s \<le> data_size s"
    and "unat (used s) + unat count \<le> 2 ^ 64 - 1"
  shows "\<exists>s'. grow_until e s count = Some (Inr s')"
  using assms
proof (induction "2 ^ 64 - unat (data_size s)" arbitrary: s rule: less_induct)
  case less
  show ?case
  proof (cases "kstr_available s < count")
    case False
    then show ?thesis by (simp add: grow_until_enough)
  next
    case True
    have av: "unat (kstr_available s) = unat (data_size s) - unat (used s)"
      using less.prems(4) by (simp add: kstr_available_def unat_sub)
    have "data_size s \<noteq> - 1"
    proof
      assume "data_size s = - 1"
      then have "unat (kstr_available s) = 2 ^ 64 - 1 - unat (used s)"
        using av by (simp add: unat_max)
      then have "unat count \<le> unat (kstr_available s)"
        using less.prems(5) by simp
      with True show False by (simp add: word_less_nat_alt)
    qed
    let ?n = "new_size (data_size s)"
    let ?ext = "uninit e (length (data s)) (unat ?n - length (data s))"
    let ?s1 = "s\<lparr>data_size := ?n, data := data s @ ?ext\<rparr>"
    have lt: "unat (data_size s) < unat ?n"
      using \<open>data_size s \<noteq> - 1\<close> less.prems(2) by (simp add: new_size_grows)
    then have tk: "take (unat ?n) (data s) = data s"
      using less.prems(1) by simp
    have g: "kstr_grow e s = Inr ?s1"
      using \<open>data_size s \<noteq> - 1\<close> less.prems(3) tk by (simp add: kstr_grow_eq)
    have step: "grow_until e s count = grow_until e ?s1 count"
      using True g by (subst grow_until.simps) simp
    have len1: "length (data ?s1) = unat (data_size ?s1)"
      using lt less.prems(1) by (simp add: uninit_def)
    have nz1: "data_size ?s1 \<noteq> 0"
      using lt by (auto simp: unat_eq_0 [symmetric])
    have m: "2 ^ 64 - unat (data_size ?s1) < 2 ^ 64 - unat (data_size s)"
      using lt unat_lt_max [of ?n] by simp
    have u1: "used ?s1 \<le> data_size ?s1"
      using less.prems(4) lt by (simp add: word_le_nat_alt)
    have c1: "unat (used ?s1) + unat count \<le> 2 ^ 64 - 1"
      using less.prems(5) by simp
    from less.hyps [OF m len1 nz1 less.prems(3) u1 c1] step
    show ?thesis by simp
  qed
qed


lemma inv_nat:
  assumes "kstr_inv s"
  shows "1 \<le> unat (used s)" "unat (used s) \<le> unat (data_size s)"
    "unat (width s) \<le> unat (used s) - 1" "64 \<le> unat (data_size s)"
    "length (data s) = unat (data_size s)" "data s ! (unat (used s) - 1) = nul"
proof -
  from assms have u1: "1 \<le> used s" and w: "width s \<le> used s - 1"
    and ud: "used s \<le> data_size s" and d: "64 \<le> data_size s"
    and l: "length (data s) = unat (data_size s)" and z: "data s ! (unat (used s) - 1) = nul"
    by (simp_all add: kstr_inv_def)
  from u1 show a: "1 \<le> unat (used s)" by (simp add: word_le_nat_alt)
  from ud show "unat (used s) \<le> unat (data_size s)" by (simp add: word_le_nat_alt)
  from u1 have "unat (used s - 1) = unat (used s) - 1" by (simp add: unat_sub)
  with w show "unat (width s) \<le> unat (used s) - 1" by (simp add: word_le_nat_alt)
  from d show "64 \<le> unat (data_size s)" by (simp add: word_le_nat_alt)
  from l show "length (data s) = unat (data_size s)" .
  from z show "data s ! (unat (used s) - 1) = nul" .
qed

lemma inv_natI:
  assumes "1 \<le> unat (used s)" "unat (used s) \<le> unat (data_size s)"
    "unat (width s) \<le> unat (used s) - 1" "64 \<le> unat (data_size s)"
    "length (data s) = unat (data_size s)" "data s ! (unat (used s) - 1) = nul"
  shows "kstr_inv s"
proof -
  from assms(1) have u1: "1 \<le> used s" by (simp add: word_le_nat_alt)
  then have "unat (used s - 1) = unat (used s) - 1" by (simp add: unat_sub)
  with assms(3) have "width s \<le> used s - 1" by (simp add: word_le_nat_alt)
  moreover from assms(2) have "used s \<le> data_size s" by (simp add: word_le_nat_alt)
  moreover from assms(4) have "64 \<le> data_size s" by (simp add: word_le_nat_alt)
  ultimately show ?thesis using u1 assms(5,6) by (simp add: kstr_inv_def)
qed

text \<open>What the loop guarantees, in natural numbers.\<close>
lemma room_nat:
  assumes "unat (used s) \<le> unat n" and "\<not> n - used s < count"
  shows "unat (used s) + unat count \<le> unat n"
proof -
  from assms(1) have "used s \<le> n" by (simp add: word_le_nat_alt)
  then have "unat (n - used s) = unat n - unat (used s)" by (simp add: unat_sub)
  moreover from assms(2) have "unat count \<le> unat (n - used s)"
    by (simp add: word_less_nat_alt)
  ultimately show ?thesis using assms(1) by simp
qed

lemma unat_add_small:
  "unat (a :: size_t) + unat b \<le> unat (n :: size_t) \<Longrightarrow> unat (a + b) = unat a + unat b"
proof -
  assume "unat a + unat b \<le> unat n"
  then have "unat a + unat b < 2 ^ LENGTH(64)" using unat_lt_max [of n] by simp
  then show ?thesis by (simp only: unat_add_lem [THEN iffD1])
qed

lemma spliced_props:
  assumes "p + length bs + 1 \<le> length D"
  shows "length (spliced D p bs) = length D"
    and "spliced D p bs ! (p + length bs) = nul"
    and "take (p + length bs) (spliced D p bs) = take p D @ bs"
proof -
  have lp: "length (take p D) = p" using assms by simp
  show "length (spliced D p bs) = length D"
    using assms by (simp add: spliced_def)
  have "spliced D p bs = (take p D @ bs) @ nul # drop (p + length bs + 1) D"
    by (simp add: spliced_def)
  moreover have "length (take p D @ bs) = p + length bs" using lp by simp
  ultimately show "spliced D p bs ! (p + length bs) = nul"
    by (metis nth_append_length)
  show "take (p + length bs) (spliced D p bs) = take p D @ bs"
    using lp by (simp add: spliced_def)
qed

lemma append_core:
  assumes inv: "kstr_inv s"
    and le: "unat (data_size s) \<le> unat n"
    and lx: "length ext = unat n - unat (data_size s)"
    and av: "\<not> n - used s < count"
    and cnt: "unat count = length bs"
    and w: "w' = width s + count \<and> k = length bs \<or> w' = width s \<and> k = 0"
  shows "appended s bs k
     (s\<lparr>data_size := n, data := spliced (data s @ ext) (unat (used s) - 1) bs,
        used := used s + count, width := w', basename := None\<rparr>)"
    (is "appended s bs k ?s'")
proof -
  note n = inv_nat [OF inv]
  define D where "D = data s @ ext"
  define p where "p = unat (used s) - 1"
  have up: "unat (used s) = p + 1" using n(1) by (simp add: p_def)
  have room: "unat (used s) + unat count \<le> unat n"
    using n(2) le av by (intro room_nat) simp_all
  have ua: "unat (used s + count) = p + length bs + 1"
    using unat_add_small [OF room] cnt up by simp
  have lD: "length D = unat n" using n(5) lx le by (simp add: D_def)
  have fit: "p + length bs + 1 \<le> length D" using room cnt up lD by simp
  note sp = spliced_props [OF fit]
  have wk: "unat w' = unat (width s) + k"
  proof -
    have "unat (width s) + unat count \<le> unat n" using room n(3) by simp
    then have "unat (width s + count) = unat (width s) + unat count"
      by (rule unat_add_small)
    with w cnt show ?thesis by auto
  qed
  have tk: "take p D = take p (data s)"
    using n(2,5) up by (simp add: D_def)
  have d: "data ?s' = spliced D p bs" by (simp add: D_def p_def)
  have u': "unat (used ?s') = p + length bs + 1" using ua by simp
  have "kstr_inv ?s'"
  proof (rule inv_natI)
    show "1 \<le> unat (used ?s')" unfolding u' by simp
    show "unat (used ?s') \<le> unat (data_size ?s')" unfolding u' using fit lD by simp
    show "unat (width ?s') \<le> unat (used ?s') - 1"
      unfolding u' using wk n(3) up w by auto
    show "64 \<le> unat (data_size ?s')" using n(4) le by simp
    show "length (data ?s') = unat (data_size ?s')" unfolding d using sp(1) lD by simp
    show "data ?s' ! (unat (used ?s') - 1) = nul" unfolding d u' using sp(2) by simp
  qed
  moreover have "kstr_bytes ?s' = kstr_bytes s @ bs"
    unfolding kstr_bytes_def d u' using sp(3) tk by (simp add: p_def)
  moreover have "unat (used ?s') = unat (used s) + length bs" using ua up by simp
  ultimately show ?thesis
    using wk le by (simp add: appended_def)
qed


lemma store_spliced:
  assumes "p + length B + 1 \<le> length D"
  shows "store D p B = Some (take p D @ B @ drop (p + length B) D)"
    and "store (take p D @ B @ drop (p + length B) D) (p + length B) [nul] =
           Some (spliced D p B)"
proof -
  show "store D p B = Some (take p D @ B @ drop (p + length B) D)"
    using assms by (simp add: store_def)
  have lp: "length (take p D) = p" using assms(1) by simp
  have "take (p + length B) (take p D @ B @ drop (p + length B) D) = take p D @ B"
    using lp by simp
  moreover have "drop (p + length B + 1) (take p D @ B @ drop (p + length B) D) =
      drop (p + length B + 1) D"
    using lp by simp
  moreover have "p + length B + length [nul] \<le> length (take p D @ B @ drop (p + length B) D)"
    using assms by simp
  ultimately show "store (take p D @ B @ drop (p + length B) D) (p + length B) [nul] =
           Some (spliced D p B)"
    unfolding store_def spliced_def by simp
qed

lemma add_chars_step:
  assumes inv: "kstr_inv s"
    and g: "grow_until e s count = Some (Inr (s\<lparr>data_size := n, data := data s @ ext\<rparr>))"
    and le: "unat (data_size s) \<le> unat n"
    and lx: "length ext = unat n - unat (data_size s)"
    and av: "\<not> n - used s < count"
    and c0: "count \<noteq> 0" and cl: "unat count \<le> length cs"
  shows "kstr_add_chars e s (Some cs) count vis =
     Some (Inr (s\<lparr>data_size := n,
        data := spliced (data s @ ext) (unat (used s) - 1) (take (unat count) cs),
        used := used s + count, width := (if vis then width s + count else width s),
        basename := None\<rparr>))"
proof -
  note n = inv_nat [OF inv]
  define D where "D = data s @ ext"
  define p where "p = unat (used s) - 1"
  define B where "B = take (unat count) cs"
  have up: "unat (used s) = p + 1" using n(1) by (simp add: p_def)
  have lB: "length B = unat count" using cl by (simp add: B_def)
  have room: "unat (used s) + unat count \<le> unat n"
    using n(2) le av by (intro room_nat) simp_all
  have ua: "unat (used s + count) = p + length B + 1"
    using unat_add_small [OF room] up lB by simp
  have lD: "length D = unat n" using n(5) lx le by (simp add: D_def)
  have fit: "p + length B + 1 \<le> length D" using room lB up lD by simp
  have u0: "used s \<noteq> 0" using n(1) by (auto simp: unat_eq_0 [symmetric])
  have ua0: "used s + count \<noteq> 0"
  proof
    assume "used s + count = 0"
    then have "unat (used s + count) = 0" by simp
    with ua show False by simp
  qed
  have ua1: "unat (used s + count) - Suc 0 = p + length B" using ua by simp
  have pS: "unat (used s) - Suc 0 = p" by (simp add: p_def)
  note st = store_spliced [OF fit]
  have g': "grow_until e s count = Some (Inr (s\<lparr>data_size := n, data := D\<rparr>))"
    using g by (simp add: D_def)
  have "kstr_add_chars e s (Some cs) count vis =
     Some (Inr (s\<lparr>data_size := n, data := spliced D p B,
        used := used s + count, width := (if vis then width s + count else width s),
        basename := None\<rparr>))"
    unfolding kstr_add_chars_def
    using c0 cl u0 ua0
    by (simp add: g' Let_def pS B_def [symmetric] ua1 st)
  then show ?thesis by (simp add: D_def p_def B_def)
qed

lemma add_chars_appended:
  assumes inv: "kstr_inv s" and c0: "count \<noteq> 0" and cl: "unat count \<le> length cs"
  shows "kstr_add_chars e s (Some cs) count vis = Some (Inl Abort) \<or>
     (\<exists>s'. kstr_add_chars e s (Some cs) count vis = Some (Inr s') \<and>
        appended s (take (unat count) cs) (if vis then unat count else 0) s')"
proof -
  note n = inv_nat [OF inv]
  have nz: "data_size s \<noteq> 0" using n(4) by (auto simp: unat_eq_0 [symmetric])
  from grow_until_cases [OF n(5) nz, of e count]
  show ?thesis
  proof
    assume "grow_until e s count = Some (Inl Abort)"
    then show ?thesis using c0 by (simp add: kstr_add_chars_def)
  next
    assume "\<exists>n ext. grow_until e s count = Some (Inr (s\<lparr>data_size := n, data := data s @ ext\<rparr>)) \<and>
            unat (data_size s) \<le> unat n \<and>
            length ext = unat n - unat (data_size s) \<and>
            \<not> n - used s < count"
    then obtain n ext where
      g: "grow_until e s count = Some (Inr (s\<lparr>data_size := n, data := data s @ ext\<rparr>))"
      and le: "unat (data_size s) \<le> unat n"
      and lx: "length ext = unat n - unat (data_size s)"
      and av: "\<not> n - used s < count"
      by blast
    have lbs: "unat count = length (take (unat count) cs)" using cl by simp
    have "appended s (take (unat count) cs) (if vis then unat count else 0)
       (s\<lparr>data_size := n,
        data := spliced (data s @ ext) (unat (used s) - 1) (take (unat count) cs),
        used := used s + count, width := (if vis then width s + count else width s),
        basename := None\<rparr>)"
      by (rule append_core [OF inv le lx av lbs]) (use cl in auto)
    with add_chars_step [OF inv g le lx av c0 cl, of vis] show ?thesis by simp
  qed
qed

lemma add_chars_returns:
  assumes inv: "kstr_inv s" and c0: "count \<noteq> 0" and cl: "unat count \<le> length cs"
    and ok: "\<not> kstr_available s < count \<or>
             (\<forall>n. alloc_ok e n) \<and> unat (used s) + unat count \<le> 2 ^ 64 - 1"
  shows "kstr_add_chars e s (Some cs) count vis \<noteq> Some (Inl Abort)"
proof -
  note n = inv_nat [OF inv]
  have nz: "data_size s \<noteq> 0" using n(4) by (auto simp: unat_eq_0 [symmetric])
  have us: "used s \<le> data_size s" using inv by (simp add: kstr_inv_def)
  have "\<exists>s'. grow_until e s count = Some (Inr s')"
    using ok grow_until_enough [of s count e] grow_until_succeeds [OF n(5) nz _ us, of e count]
    by auto
  then obtain s1 where g: "grow_until e s count = Some (Inr s1)" by blast
  show ?thesis
    using g c0 by (auto simp: kstr_add_chars_def Let_def split: option.splits if_splits)
qed


lemma rendered_length_bytes: "length (rendered_bytes fmt) = rendered_length fmt"
  by (auto simp: rendered_bytes_def rendered_length_def vsnprintf_ret_def
      split: option.splits format.splits)

lemma rendered_length_le: "rendered_length fmt \<le> 2147483647"
  by (auto simp: rendered_length_def vsnprintf_ret_def INT_MAX_def
      split: option.splits format.splits)

lemma vfmt_count:
  "(if vsnprintf_ret fmt < 0 then 0 else word_of_int (vsnprintf_ret fmt) :: size_t) =
     of_nat (rendered_length fmt)"
  by (auto simp: rendered_length_def)

lemma unat_vfmt_count: "unat (of_nat (rendered_length fmt) :: size_t) = rendered_length fmt"
proof -
  have "rendered_length fmt < 2 ^ 64"
    using rendered_length_le [of fmt] by simp
  then show ?thesis by (simp add: unat_of_nat)
qed

lemma unat_vfmt_count1:
  "unat (of_nat (rendered_length fmt) + 1 :: size_t) = rendered_length fmt + 1"
proof -
  have "unat (of_nat (rendered_length fmt) :: size_t) + unat (1 :: size_t) < 2 ^ LENGTH(64)"
    using rendered_length_le [of fmt] by (simp add: unat_vfmt_count)
  then have "unat (of_nat (rendered_length fmt) + 1 :: size_t) =
     unat (of_nat (rendered_length fmt) :: size_t) + unat (1 :: size_t)"
    by (simp only: unat_add_lem [THEN iffD1])
  then show ?thesis by (simp add: unat_vfmt_count)
qed

lemma vsnprintf_out_exact:
  "vsnprintf_out (Suc (rendered_length fmt)) fmt = rendered_bytes fmt @ [nul]"
  by (auto simp: vsnprintf_out_def rendered_bytes_def rendered_length_def vsnprintf_ret_def
      split: option.splits format.splits)


lemma store_with_nul:
  assumes "p + length B + 1 \<le> length D"
  shows "store D p (B @ [nul]) = Some (spliced D p B)"
  using assms by (simp add: store_def spliced_def)

lemma add_vfmt_step:
  assumes inv: "kstr_inv s"
    and g: "grow_until e s (of_nat (rendered_length fmt)) =
              Some (Inr (s\<lparr>data_size := n, data := data s @ ext\<rparr>))"
    and le: "unat (data_size s) \<le> unat n"
    and lx: "length ext = unat n - unat (data_size s)"
    and av: "\<not> n - used s < of_nat (rendered_length fmt)"
  shows "kstr_add_vfmt e s fmt =
     Some (Inr (s\<lparr>data_size := n,
        data := spliced (data s @ ext) (unat (used s) - 1) (rendered_bytes fmt),
        used := used s + of_nat (rendered_length fmt),
        width := width s + of_nat (rendered_length fmt),
        basename := None\<rparr>))"
proof -
  note n = inv_nat [OF inv]
  define D where "D = data s @ ext"
  define p where "p = unat (used s) - 1"
  define B where "B = rendered_bytes fmt"
  define count :: size_t where "count = of_nat (rendered_length fmt)"
  have up: "unat (used s) = p + 1" using n(1) by (simp add: p_def)
  have lB: "length B = unat count"
    by (simp add: B_def count_def rendered_length_bytes unat_vfmt_count)
  have room: "unat (used s) + unat count \<le> unat n"
    using n(2) le av by (intro room_nat) (simp_all add: count_def)
  have lD: "length D = unat n" using n(5) lx le by (simp add: D_def)
  have fit: "p + length B + 1 \<le> length D" using room lB up lD by simp
  have u0: "used s \<noteq> 0" using n(1) by (auto simp: unat_eq_0 [symmetric])
  have pS: "unat (used s) - Suc 0 = p" by (simp add: p_def)
  have out: "vsnprintf_out (unat (count + 1)) fmt = B @ [nul]"
    by (simp add: count_def unat_vfmt_count1 vsnprintf_out_exact B_def)
  have g': "grow_until e s count = Some (Inr (s\<lparr>data_size := n, data := D\<rparr>))"
    using g by (simp add: D_def count_def)
  have "kstr_add_vfmt e s fmt =
     Some (Inr (s\<lparr>data_size := n, data := spliced D p B,
        used := used s + count, width := width s + count, basename := None\<rparr>))"
    unfolding kstr_add_vfmt_def Let_def vfmt_count count_def [symmetric]
    using u0 by (simp add: g' pS out store_with_nul [OF fit])
  then show ?thesis by (simp add: D_def p_def B_def count_def)
qed

lemma add_vfmt_appended:
  assumes inv: "kstr_inv s"
  shows "kstr_add_vfmt e s fmt = Some (Inl Abort) \<or>
     (\<exists>s'. kstr_add_vfmt e s fmt = Some (Inr s') \<and>
        appended s (rendered_bytes fmt) (rendered_length fmt) s')"
proof -
  note n = inv_nat [OF inv]
  let ?count = "of_nat (rendered_length fmt) :: size_t"
  have nz: "data_size s \<noteq> 0" using n(4) by (auto simp: unat_eq_0 [symmetric])
  from grow_until_cases [OF n(5) nz, of e ?count]
  show ?thesis
  proof
    assume "grow_until e s ?count = Some (Inl Abort)"
    then show ?thesis by (simp add: kstr_add_vfmt_def Let_def vfmt_count)
  next
    assume "\<exists>n ext. grow_until e s ?count = Some (Inr (s\<lparr>data_size := n, data := data s @ ext\<rparr>)) \<and>
            unat (data_size s) \<le> unat n \<and>
            length ext = unat n - unat (data_size s) \<and>
            \<not> n - used s < ?count"
    then obtain n ext where
      g: "grow_until e s ?count = Some (Inr (s\<lparr>data_size := n, data := data s @ ext\<rparr>))"
      and le: "unat (data_size s) \<le> unat n"
      and lx: "length ext = unat n - unat (data_size s)"
      and av: "\<not> n - used s < ?count"
      by blast
    have lbs: "unat ?count = length (rendered_bytes fmt)"
      by (simp add: rendered_length_bytes unat_vfmt_count)
    have "appended s (rendered_bytes fmt) (rendered_length fmt)
       (s\<lparr>data_size := n,
        data := spliced (data s @ ext) (unat (used s) - 1) (rendered_bytes fmt),
        used := used s + ?count, width := width s + ?count, basename := None\<rparr>)"
      by (rule append_core [OF inv le lx av lbs]) (simp add: rendered_length_bytes)
    with add_vfmt_step [OF inv g le lx av] show ?thesis by simp
  qed
qed

lemma spliced_nothing:
  assumes "p < length D" and "D ! p = nul"
  shows "spliced D p [] = D"
proof -
  have "D = take p D @ D ! p # drop (Suc p) D"
    using assms(1) by (rule id_take_nth_drop)
  with assms(2) show ?thesis by (simp add: spliced_def)
qed

lemma add_vfmt_nothing:
  assumes inv: "kstr_inv s" and r: "rendered_length fmt = 0"
  shows "kstr_add_vfmt e s fmt = Some (Inr (s\<lparr>basename := None\<rparr>))"
proof -
  note n = inv_nat [OF inv]
  have g: "grow_until e s (of_nat (rendered_length fmt)) =
      Some (Inr (s\<lparr>data_size := data_size s, data := data s @ []\<rparr>))"
    using r by (simp add: grow_until_enough)
  have av: "\<not> data_size s - used s < of_nat (rendered_length fmt)" using r by simp
  have rb: "rendered_bytes fmt = []"
    using r rendered_length_bytes [of fmt] by simp
  have sp: "spliced (data s) (unat (used s) - 1) [] = data s"
    using n(1,2,5,6) by (intro spliced_nothing) simp_all
  from add_vfmt_step [OF inv g _ _ av] show ?thesis
    using r rb sp by simp
qed


lemma appended_refl: "kstr_inv s \<Longrightarrow> appended s [] 0 s"
  by (simp add: appended_def)

lemma strlen_le: "unat (strlen t) \<le> length (takeWhile (\<lambda>c. c \<noteq> nul) t)"
proof -
  have "unat (strlen t) = length (takeWhile (\<lambda>c. c \<noteq> nul) t) mod 2 ^ 64"
    by (simp add: strlen_def unat_of_nat)
  then show ?thesis by simp
qed

lemma strlen_le_length: "unat (strlen t) \<le> length t"
  using strlen_le [of t] length_takeWhile_le [of "\<lambda>c. c \<noteq> nul" t] by simp

lemma strlen_c_string:
  assumes "c_string t"
  shows "unat (strlen t) = length t" and "take (unat (strlen t)) t = t"
proof -
  from assms have tw: "takeWhile (\<lambda>c. c \<noteq> nul) t = t" and l: "length t < 2 ^ 64"
    by (auto simp: c_string_def)
  show "unat (strlen t) = length t"
    using l by (simp add: strlen_def tw unat_of_nat)
  then show "take (unat (strlen t)) t = t" by simp
qed

lemma add_text_cases:
  assumes inv: "kstr_inv s"
  shows "kstr_add_text e s t = Some (Inl Abort) \<or>
     (\<exists>s'. kstr_add_text e s t = Some (Inr s') \<and>
        appended s (take (unat (strlen (text_of t))) (text_of t))
          (unat (strlen (text_of t))) s')"
proof (cases "t = None \<or> strlen (text_of t) = 0")
  case True
  then have "kstr_add_text e s t = Some (Inr s)"
    by (auto simp: kstr_add_text_def kstr_add_chars_def text_of_def split: option.splits)
  moreover have "take (unat (strlen (text_of t))) (text_of t) = []"
    using True by (auto simp: text_of_def strlen_def)
  moreover have "unat (strlen (text_of t)) = 0"
    using True by (auto simp: text_of_def strlen_def)
  ultimately show ?thesis using inv by (simp add: appended_refl)
next
  case False
  then obtain cs where t: "t = Some cs" and c0: "strlen cs \<noteq> 0"
    by (auto simp: text_of_def)
  from add_chars_appended [OF inv c0 strlen_le_length, of e True]
  show ?thesis unfolding t by (simp add: kstr_add_text_def text_of_def)
qed

lemma reset_inv:
  assumes inv: "kstr_inv s"
  shows "\<exists>r. kstr_reset s = Inr r \<and> kstr_inv r \<and> kstr_bytes r = [] \<and> used r = 1 \<and>
    width r = 0 \<and> data_size r = data_size s \<and> basename r = None"
proof -
  note n = inv_nat [OF inv]
  have st: "store (data s) 0 [nul] = Some (nul # drop 1 (data s))"
    using n(4,5) by (simp add: store_def)
  let ?r = "s\<lparr>data := nul # drop 1 (data s), used := 1, width := 0, basename := None\<rparr>"
  have r: "kstr_reset s = Inr ?r" by (simp add: kstr_reset_def st)
  have "kstr_inv ?r"
    by (rule inv_natI) (use n(4,5) in simp_all)
  then show ?thesis using r by (simp add: kstr_bytes_def)
qed


lemma add_code:
  assumes inv: "kstr_inv s" and cs: "c_string cs" and ne: "cs \<noteq> []"
  shows "kstr_add_chars e s (Some cs) (strlen cs) False = Some (Inl Abort) \<or>
     (\<exists>s'. kstr_add_chars e s (Some cs) (strlen cs) False = Some (Inr s') \<and>
        appended s cs 0 s')"
proof -
  note sl = strlen_c_string [OF cs]
  have c0: "strlen cs \<noteq> 0"
  proof
    assume "strlen cs = 0"
    then have "unat (strlen cs) = 0" by simp
    with sl(1) ne show False by simp
  qed
  from add_chars_appended [OF inv c0 strlen_le_length, of e False]
  show ?thesis by (simp add: sl)
qed

lemma codes_c_string:
  "\<forall>cs \<in> set fg_codes \<union> set bg_codes. c_string cs \<and> cs \<noteq> []"
  by (simp add: fg_codes_def bg_codes_def c_string_def ESC_def nul_def)

lemma fg_code_ok: "k < 9 \<Longrightarrow> c_string (fg_codes ! k) \<and> fg_codes ! k \<noteq> []"
proof -
  assume "k < 9"
  moreover have "length fg_codes = 9" by (simp add: fg_codes_def)
  ultimately have "fg_codes ! k \<in> set fg_codes" by (simp only: nth_mem)
  with codes_c_string show ?thesis by blast
qed

lemma bg_code_ok: "k < 9 \<Longrightarrow> c_string (bg_codes ! k) \<and> bg_codes ! k \<noteq> []"
proof -
  assume "k < 9"
  moreover have "length bg_codes = 9" by (simp add: bg_codes_def)
  ultimately have "bg_codes ! k \<in> set bg_codes" by (simp only: nth_mem)
  with codes_c_string show ?thesis by blast
qed

lemma bold_code_ok:
  "c_string (ESC # ''[1m'')" "c_string (ESC # ''[22m'')" "c_string (ESC # ''[0m'')"
  by (simp_all add: c_string_def ESC_def nul_def)

lemma color_index: "\<not> uintmax kstr_num_colors \<le> uintmax c \<Longrightarrow> unat (uintmax c) < 9"
  by (simp add: uintmax_def kstr_num_colors_def word_le_nat_alt)

lemma stepped_add:
  "\<not> call_sets c \<Longrightarrow> appended s (call_bytes c) (call_visible c) s' \<Longrightarrow> stepped c s s'"
  by (simp add: stepped_def appended_def)

lemma stepped_set:
  assumes "call_sets c" and "appended r (call_bytes c) (call_visible c) s'"
    and "kstr_bytes r = []" and "used r = 1" and "width r = 0"
  shows "stepped c s s'"
  using assms by (simp add: stepped_def appended_def)

lemma call_cases:
  assumes inv: "kstr_inv s"
  shows "kstr_call e c s = Some (Inl Abort) \<or>
     (\<exists>s'. kstr_call e c s = Some (Inr s') \<and> stepped c s s')"
proof (cases c)
  case (Set_text t)
  from reset_inv [OF inv] obtain r where r: "kstr_reset s = Inr r" "kstr_inv r"
    "kstr_bytes r = []" "used r = 1" "width r = 0" by blast
  from add_text_cases [OF r(2), of e t] show ?thesis
    unfolding Set_text
    by (auto simp: kstr_set_text_def r(1) intro!: stepped_set [OF _ _ r(3,4,5)])
next
  case (Set_fmt f)
  from reset_inv [OF inv] obtain r where r: "kstr_reset s = Inr r" "kstr_inv r"
    "kstr_bytes r = []" "used r = 1" "width r = 0" by blast
  from add_vfmt_appended [OF r(2), of e f] show ?thesis
    unfolding Set_fmt
    by (auto simp: kstr_set_fmt_def kstr_set_vfmt_def r(1) intro!: stepped_set [OF _ _ r(3,4,5)])
next
  case (Add_text t)
  from add_text_cases [OF inv, of e t] show ?thesis
    unfolding Add_text by (auto intro!: stepped_add)
next
  case (Add_fmt f)
  from add_vfmt_appended [OF inv, of e f] show ?thesis
    unfolding Add_fmt by (auto simp: kstr_add_fmt_def intro!: stepped_add)
next
  case (Add_bold b)
  from add_code [OF inv bold_code_ok(1), of e] add_code [OF inv bold_code_ok(2), of e]
  show ?thesis
    unfolding Add_bold by (cases b) (auto simp: kstr_add_bold_def intro!: stepped_add)
next
  case (Add_fg col)
  show ?thesis
  proof (cases "uintmax kstr_num_colors \<le> uintmax col")
    case True
    then show ?thesis unfolding Add_fg by (simp add: kstr_add_fg_def)
  next
    case False
    from fg_code_ok [OF color_index [OF False]]
    have "c_string (fg_codes ! unat (uintmax col))" "fg_codes ! unat (uintmax col) \<noteq> []"
      by simp_all
    from add_code [OF inv this, of e] show ?thesis
      unfolding Add_fg using False by (auto simp: kstr_add_fg_def intro!: stepped_add)
  qed
next
  case (Add_bg col)
  show ?thesis
  proof (cases "uintmax kstr_num_colors \<le> uintmax col")
    case True
    then show ?thesis unfolding Add_bg by (simp add: kstr_add_bg_def)
  next
    case False
    from bg_code_ok [OF color_index [OF False]]
    have "c_string (bg_codes ! unat (uintmax col))" "bg_codes ! unat (uintmax col) \<noteq> []"
      by simp_all
    from add_code [OF inv this, of e] show ?thesis
      unfolding Add_bg using False by (auto simp: kstr_add_bg_def intro!: stepped_add)
  qed
next
  case Add_reset
  from add_code [OF inv bold_code_ok(3), of e] show ?thesis
    unfolding Add_reset by (auto simp: kstr_add_reset_def intro!: stepped_add)
qed


lemma new_cases:
  "kstr_new e t = Some (Inl Abort) \<or>
     (\<exists>s. kstr_new e t = Some (Inr s) \<and> kstr_inv s \<and>
        kstr_bytes s = take (unat (strlen (text_of t))) (text_of t) \<and>
        unat (used s) = 1 + unat (strlen (text_of t)) \<and>
        unat (width s) = unat (strlen (text_of t)))"
proof (cases "alloc_ok e sizeof_kstr \<and> alloc_ok e (unat init_size)")
  case False
  then show ?thesis by (auto simp: kstr_new_def malloc_buf_def)
next
  case True
  define buf where "buf = uninit e 0 64"
  have lb: "length buf = 64" by (simp add: buf_def uninit_def)
  define s0 where "s0 = \<lparr>data_size = init_size, used = 1, width = 0, basename = None,
              data = nul # drop 1 buf\<rparr>"
  have st: "store buf 0 [nul] = Some (nul # drop 1 buf)"
    using lb by (simp add: store_def)
  have new: "kstr_new e t = kstr_add_text e s0 t"
    using True st by (simp add: kstr_new_def malloc_buf_def init_size_def buf_def s0_def)
  have inv0: "kstr_inv s0"
    by (rule inv_natI) (simp_all add: init_size_def lb s0_def)
  have b0: "kstr_bytes s0 = []" "unat (used s0) = 1" "unat (width s0) = 0"
    by (simp_all add: kstr_bytes_def s0_def)
  from add_text_cases [OF inv0, of e t] show ?thesis
    unfolding new by (auto simp: appended_def b0 min_absorb2 strlen_le_length)
qed

lemma copy_cases:
  assumes inv: "kstr_inv s"
  shows "kstr_copy e s = Inl Abort \<or> kstr_copy e s = Inr (s\<lparr>basename := None\<rparr>)"
proof (cases "alloc_ok e sizeof_kstr \<and> alloc_ok e (unat (data_size s))")
  case False
  then show ?thesis by (auto simp: kstr_copy_def malloc_buf_def)
next
  case True
  note n = inv_nat [OF inv]
  define buf where "buf = uninit e 0 (unat (data_size s))"
  have lb: "length buf = length (data s)" by (simp add: buf_def uninit_def n(5))
  have st: "store buf 0 (take (unat (data_size s)) (data s)) = Some (data s)"
    using lb n(5) by (simp add: store_def)
  have "kstr_copy e s = Inr \<lparr>data_size = data_size s, used = used s, width = width s,
                        basename = None, data = data s\<rparr>"
    using True st n(5) by (simp add: kstr_copy_def malloc_buf_def buf_def)
  then show ?thesis by simp
qed

lemma inv_basename: "kstr_inv (s\<lparr>basename := b\<rparr>) = kstr_inv s"
  by (simp add: kstr_inv_def)

lemma demo_uninit: "uninit demo_env off n = replicate n (CHR ''?'')"
  by (simp add: uninit_def demo_env_def map_replicate_const)

lemma demo_alloc: "alloc_ok demo_env n"
  by (simp add: demo_env_def)

lemma demo_new: "kstr_new demo_env (Some ''ab'') = Some (Inr demo_ab)"
  by (simp add: kstr_new_def demo_alloc demo_ab_def malloc_buf_def demo_uninit store_def
      sizeof_kstr_def init_size_def kstr_add_text_def kstr_add_chars_def strlen_def nul_def
      grow_until_enough kstr_available_def Let_def)

lemma demo_bold: "kstr_call demo_env (Add_bold True) demo_ab = Some (Inr demo_ab_bold)"
  by (simp add: demo_ab_def demo_ab_bold_def demo_uninit store_def
      kstr_add_bold_def kstr_add_chars_def strlen_def nul_def ESC_def
      grow_until_enough kstr_available_def Let_def)

lemma demo_inv: "kstr_inv demo_ab"
  by (simp add: kstr_inv_def demo_ab_def demo_uninit nul_def)

lemma demo_copy: "kstr_copy demo_env demo_ab = Inr demo_ab"
  by (simp add: kstr_copy_def demo_alloc malloc_buf_def demo_uninit store_def demo_ab_def)


lemma visible_sum_step:
  "visible_sum w (c # cs) = visible_sum ((if call_sets c then 0 else w) + call_visible c) cs"
  by (cases c) simp_all

lemma visible_sum_adds:
  "\<forall>c \<in> set cs. \<not> call_sets c \<Longrightarrow>
     visible_sum w cs = w + sum_list (map call_visible cs)"
proof (induction cs arbitrary: w)
  case Nil
  then show ?case by simp
next
  case (Cons c cs)
  then show ?case by (simp add: visible_sum_step)
qed

lemma calls_stepped:
  assumes "kstr_inv s" and "kstr_calls cs s = Some (Inr s')"
  shows "kstr_inv s' \<and> unat (width s') = visible_sum (unat (width s)) (map snd cs)"
  using assms
proof (induction cs arbitrary: s)
  case Nil
  then show ?case by simp
next
  case (Cons ec cs)
  obtain e c where ec: "ec = (e, c)" by (cases ec)
  from call_cases [OF Cons.prems(1), of e c] Cons.prems(2)
  obtain s1 where s1: "kstr_call e c s = Some (Inr s1)" and st: "stepped c s s1"
    by (auto simp: ec)
  from Cons.prems(2) s1 have rest: "kstr_calls cs s1 = Some (Inr s')"
    by (simp add: ec)
  from st have inv1: "kstr_inv s1"
    and w1: "unat (width s1) = (if call_sets c then 0 else unat (width s)) + call_visible c"
    by (simp_all add: stepped_def)
  from Cons.IH [OF inv1 rest] show ?case
    by (simp add: ec visible_sum_step w1)
qed

lemma styling_width:
  assumes "kstr_inv s" and "styling c" and "kstr_call e c s = Some (Inr s')"
  shows "width s' = width s"
proof -
  from call_cases [OF assms(1), of e c] assms(3) have "stepped c s s'" by auto
  moreover from assms(2) have "\<not> call_sets c" "call_visible c = 0" by (cases c; simp)+
  ultimately have "unat (width s') = unat (width s)" by (simp add: stepped_def)
  then show ?thesis by (simp add: word_unat_eq_iff)
qed

lemma demo_calls: "kstr_calls [(demo_env, Add_bold True)] demo_ab = Some (Inr demo_ab_bold)"
  using demo_bold by simp


lemma get_bytes:
  assumes inv: "kstr_inv s" and nf: "nul \<notin> set (kstr_bytes s)"
  shows "kstr_get s = Some (kstr_bytes s)"
proof -
  note n = inv_nat [OF inv]
  define p where "p = unat (used s) - 1"
  have pl: "p < length (data s)" using n(1,2,5) by (simp add: p_def)
  have d: "data s = take p (data s) @ nul # drop (Suc p) (data s)"
    using id_take_nth_drop [OF pl] n(6) by (simp add: p_def)
  have nf': "\<forall>c \<in> set (take p (data s)). c \<noteq> nul"
    using nf by (auto simp: kstr_bytes_def p_def)
  have "takeWhile (\<lambda>c. c \<noteq> nul) (take p (data s) @ nul # drop (Suc p) (data s)) =
      take p (data s)"
    using nf' by (simp add: takeWhile_append2)
  with d have tw: "takeWhile (\<lambda>c. c \<noteq> nul) (data s) = take p (data s)" by simp
  have "nul \<in> set (data s)" by (subst d) simp
  then show ?thesis by (simp add: kstr_get_def c_str_def tw kstr_bytes_def p_def)
qed

lemma size_bytes:
  assumes inv: "kstr_inv s"
  shows "unat (kstr_size s) = length (kstr_bytes s) + 1"
proof -
  note n = inv_nat [OF inv]
  show ?thesis using n(1,2,5) by (simp add: kstr_size_def kstr_bytes_def)
qed

lemma new_c_string:
  assumes "c_string T"
  shows "kstr_new e (Some T) = Some (Inl Abort) \<or>
     (\<exists>s. kstr_new e (Some T) = Some (Inr s) \<and> kstr_inv s \<and> kstr_bytes s = T \<and>
        kstr_get s = Some T)"
proof -
  note sl = strlen_c_string [OF assms]
  from assms have nf: "nul \<notin> set T" by (simp add: c_string_def)
  from new_cases [of e "Some T"] show ?thesis
  proof
    assume "kstr_new e (Some T) = Some (Inl Abort)"
    then show ?thesis by simp
  next
    assume "\<exists>s. kstr_new e (Some T) = Some (Inr s) \<and> kstr_inv s \<and>
        kstr_bytes s = take (unat (strlen (text_of (Some T)))) (text_of (Some T)) \<and>
        unat (used s) = 1 + unat (strlen (text_of (Some T))) \<and>
        unat (width s) = unat (strlen (text_of (Some T)))"
    then obtain s where s: "kstr_new e (Some T) = Some (Inr s)" "kstr_inv s"
      "kstr_bytes s = T"
      by (auto simp: text_of_def sl)
    from get_bytes [OF s(2)] s(3) nf have "kstr_get s = Some T" by simp
    with s show ?thesis by simp
  qed
qed

lemma new_null:
  "kstr_new e None = Some (Inl Abort) \<or>
     (\<exists>s. kstr_new e None = Some (Inr s) \<and> kstr_inv s \<and> kstr_bytes s = [] \<and>
        kstr_get s = Some [])"
proof -
  from new_cases [of e None] show ?thesis
  proof
    assume "kstr_new e None = Some (Inl Abort)"
    then show ?thesis by simp
  next
    assume "\<exists>s. kstr_new e None = Some (Inr s) \<and> kstr_inv s \<and>
        kstr_bytes s = take (unat (strlen (text_of None))) (text_of None) \<and>
        unat (used s) = 1 + unat (strlen (text_of None)) \<and>
        unat (width s) = unat (strlen (text_of None))"
    then obtain s where s: "kstr_new e None = Some (Inr s)" "kstr_inv s" "kstr_bytes s = []"
      by (auto simp: text_of_def)
    from get_bytes [OF s(2)] s(3) have "kstr_get s = Some []" by simp
    with s show ?thesis by simp
  qed
qed

lemma new_returns:
  assumes ok: "\<forall>n. alloc_ok e n" and len: "length (text_of t) + 2 \<le> 2 ^ 64"
  shows "kstr_new e t \<noteq> Some (Inl Abort)"
proof -
  define buf where "buf = uninit e 0 64"
  have lb: "length buf = 64" by (simp add: buf_def uninit_def)
  define s0 where "s0 = \<lparr>data_size = init_size, used = 1, width = 0, basename = None,
              data = nul # drop 1 buf\<rparr>"
  have st: "store buf 0 [nul] = Some (nul # drop 1 buf)"
    using lb by (simp add: store_def)
  have new: "kstr_new e t = kstr_add_text e s0 t"
    using ok st by (simp add: kstr_new_def malloc_buf_def init_size_def buf_def s0_def)
  have inv0: "kstr_inv s0"
    by (rule inv_natI) (simp_all add: init_size_def lb s0_def)
  show ?thesis
  proof (cases "t = None \<or> strlen (text_of t) = 0")
    case True
    then have "kstr_add_text e s0 t = Some (Inr s0)"
      by (auto simp: kstr_add_text_def kstr_add_chars_def text_of_def split: option.splits)
    then show ?thesis by (simp add: new)
  next
    case False
    then obtain cs where t: "t = Some cs" and c0: "strlen cs \<noteq> 0"
      by (auto simp: text_of_def)
    have "unat (strlen cs) \<le> length cs" by (rule strlen_le_length)
    with len have "unat (used s0) + unat (strlen cs) \<le> 2 ^ 64 - 1"
      by (simp add: s0_def t text_of_def)
    with ok have "\<not> kstr_available s0 < strlen cs \<or>
             (\<forall>n. alloc_ok e n) \<and> unat (used s0) + unat (strlen cs) \<le> 2 ^ 64 - 1"
      by simp
    from add_chars_returns [OF inv0 c0 strlen_le_length this, of True]
    have "kstr_add_text e s0 t \<noteq> Some (Inl Abort)"
      by (simp add: t kstr_add_text_def)
    then show ?thesis unfolding new .
  qed
qed

lemma demo_new_a: "kstr_new demo_env (Some [CHR ''a'', nul, CHR ''b'']) = Some (Inr demo_a)"
  by (simp add: kstr_new_def demo_alloc demo_a_def malloc_buf_def demo_uninit store_def
      sizeof_kstr_def init_size_def kstr_add_text_def kstr_add_chars_def strlen_def nul_def
      grow_until_enough kstr_available_def Let_def)

lemma demo_get_a: "kstr_get demo_a = Some ''a''"
  by (simp add: kstr_get_def c_str_def demo_a_def demo_uninit nul_def)

lemma c_string_ab: "c_string ''ab''"
  by (simp add: c_string_def nul_def)

lemma c_string_kib: "c_string (replicate 1024 (CHR ''x''))"
  by (simp add: c_string_def nul_def)


lemma take_strlen_nul_free: "nul \<notin> set (take (unat (strlen t)) t)"
proof -
  let ?P = "\<lambda>c. c \<noteq> nul"
  have "take (unat (strlen t)) t = take (unat (strlen t)) (takeWhile ?P t @ dropWhile ?P t)"
    by simp
  also have "\<dots> = take (unat (strlen t)) (takeWhile ?P t)"
    using strlen_le [of t] by (simp only: take_append) simp
  finally have "set (take (unat (strlen t)) t) \<subseteq> set (takeWhile ?P t)"
    by (simp add: set_take_subset)
  then show ?thesis by (auto dest: set_takeWhileD)
qed

lemma codes_nul_free:
  assumes "k < 9"
  shows "nul \<notin> set (fg_codes ! k)" and "nul \<notin> set (bg_codes ! k)"
  using fg_code_ok [OF assms] bg_code_ok [OF assms] by (simp_all add: c_string_def)

lemma call_bytes_nul_free:
  assumes "kstr_call e c s = Some (Inr s')" and "\<not> renders_nul c"
  shows "nul \<notin> set (call_bytes c)"
proof (cases c)
  case (Add_fg col)
  with assms(1) have "\<not> uintmax kstr_num_colors \<le> uintmax col"
    by (auto simp: kstr_add_fg_def split: if_splits)
  from codes_nul_free(1) [OF color_index [OF this]] show ?thesis by (simp add: Add_fg)
next
  case (Add_bg col)
  with assms(1) have "\<not> uintmax kstr_num_colors \<le> uintmax col"
    by (auto simp: kstr_add_bg_def split: if_splits)
  from codes_nul_free(2) [OF color_index [OF this]] show ?thesis by (simp add: Add_bg)
next
  case (Add_bold b)
  then show ?thesis by (simp add: ESC_def nul_def)
next
  case Add_reset
  then show ?thesis by (simp add: ESC_def nul_def)
qed (use assms(2) in \<open>simp_all add: take_strlen_nul_free\<close>)

lemma calls_inv:
  assumes "kstr_inv s" and "kstr_calls cs s = Some (Inr s')"
  shows "kstr_inv s'"
  using calls_stepped [OF assms] by simp

lemma calls_nul_free:
  assumes "kstr_inv s" and "nul \<notin> set (kstr_bytes s)"
    and "kstr_calls cs s = Some (Inr s')"
    and "\<forall>c \<in> set (map snd cs). \<not> renders_nul c"
  shows "nul \<notin> set (kstr_bytes s')"
  using assms
proof (induction cs arbitrary: s)
  case Nil
  then show ?case by simp
next
  case (Cons ec cs)
  obtain e c where ec: "ec = (e, c)" by (cases ec)
  from call_cases [OF Cons.prems(1), of e c] Cons.prems(3)
  obtain s1 where s1: "kstr_call e c s = Some (Inr s1)" and st: "stepped c s s1"
    by (auto simp: ec)
  from Cons.prems(3) s1 have rest: "kstr_calls cs s1 = Some (Inr s')"
    by (simp add: ec)
  from Cons.prems(4) have nr: "\<not> renders_nul c" and nrs: "\<forall>c \<in> set (map snd cs). \<not> renders_nul c"
    by (simp_all add: ec)
  from st have inv1: "kstr_inv s1"
    and b1: "kstr_bytes s1 = (if call_sets c then [] else kstr_bytes s) @ call_bytes c"
    by (simp_all add: stepped_def)
  from call_bytes_nul_free [OF s1 nr] Cons.prems(2) b1
  have nf1: "nul \<notin> set (kstr_bytes s1)" by simp
  from Cons.IH [OF inv1 nf1 rest nrs] show ?case .
qed

lemma demo_new_null: "kstr_new demo_env None = Some (Inr demo_empty)"
  by (simp add: kstr_new_def demo_alloc demo_empty_def malloc_buf_def demo_uninit store_def
      sizeof_kstr_def init_size_def kstr_add_text_def kstr_add_chars_def)

lemma demo_add_fmt_nul:
  "kstr_call demo_env (Add_fmt (Some (Renders [nul]))) demo_empty = Some (Inr demo_fmt_nul)"
  by (simp add: kstr_add_fmt_def kstr_add_vfmt_def vsnprintf_ret_def vsnprintf_out_def
      INT_MAX_def demo_empty_def demo_fmt_nul_def demo_uninit store_def
      grow_until_enough kstr_available_def Let_def)

lemma demo_get_fmt_nul: "kstr_get demo_fmt_nul = Some []"
  by (simp add: kstr_get_def c_str_def demo_fmt_nul_def)

lemma demo_get_bold: "kstr_get demo_ab_bold = Some (''ab'' @ ESC # ''[1m'')"
  by (simp add: kstr_get_def c_str_def demo_ab_bold_def demo_uninit nul_def ESC_def)

lemma add_chars_basename:
  assumes "kstr_add_chars e s chars count vis = Some (Inr s')"
  shows "(chars = None \<or> count = 0) \<and> s' = s \<or>
         chars \<noteq> None \<and> count \<noteq> 0 \<and> basename s' = None"
proof (cases "chars = None \<or> count = 0")
  case True
  with assms show ?thesis by (simp add: kstr_add_chars_def)
next
  case False
  with assms have "basename s' = None"
    by (auto simp: kstr_add_chars_def Let_def split: option.splits sum.splits if_splits)
  with False show ?thesis by simp
qed

lemma add_vfmt_basename:
  assumes "kstr_add_vfmt e s fmt = Some (Inr s')"
  shows "basename s' = None"
  using assms
  by (auto simp: kstr_add_vfmt_def Let_def split: option.splits sum.splits if_splits)

lemma reset_basename:
  assumes "kstr_reset s = Inr r"
  shows "basename r = None"
  using assms by (auto simp: kstr_reset_def split: option.splits)

lemma new_basename:
  assumes "kstr_new e t = Some (Inr s)"
  shows "basename s = None"
proof -
  from assms obtain d where a: "kstr_add_text e
      \<lparr>data_size = init_size, used = 1, width = 0, basename = None, data = d\<rparr> t =
      Some (Inr s)"
    by (auto simp: kstr_new_def split: if_splits option.splits)
  from add_chars_basename [OF a [unfolded kstr_add_text_def]] show ?thesis by auto
qed

lemma basename_fresh:
  assumes "kstr_inv s" and "nul \<notin> set (kstr_bytes s)" and "basename s = None"
  shows "kstr_basename e s = Inl Abort \<or>
     kstr_basename e s =
       Inr (posix_basename (kstr_bytes s),
            s\<lparr>basename := Some (posix_basename (kstr_bytes s))\<rparr>)"
proof -
  from get_bytes [OF assms(1,2)] have "c_str (data s) = Some (kstr_bytes s)"
    by (simp add: kstr_get_def)
  then show ?thesis
    using assms(3) by (simp add: kstr_basename_def kstr_get_copy_def Let_def)
qed

lemma basename_cached:
  "basename s = Some b \<Longrightarrow> kstr_basename e s = Inr (b, s)"
  by (simp add: kstr_basename_def)

lemma basename_result_cached:
  assumes "kstr_basename e s = Inr (b, s')"
  shows "basename s' = Some b"
  using assms
  by (auto simp: kstr_basename_def kstr_get_copy_def Let_def
      split: option.splits sum.splits if_splits)

lemma basename_total:
  assumes "kstr_inv s"
  shows "kstr_basename e s = Inl Abort \<or> (\<exists>b s'. kstr_basename e s = Inr (b, s'))"
proof -
  note n = inv_nat [OF assms]
  have "unat (used s) - 1 < length (data s)" using n(1,2,5) by simp
  then have "data s ! (unat (used s) - 1) \<in> set (data s)" by (rule nth_mem)
  then have "nul \<in> set (data s)" using n(6) by simp
  then show ?thesis
    by (auto simp: kstr_basename_def kstr_get_copy_def c_str_def Let_def split: option.splits)
qed

lemma set_text_c_string:
  assumes inv: "kstr_inv s" and cs: "c_string v"
    and st: "kstr_set_text e s (Some v) = Some (Inr s1)"
  shows "kstr_inv s1 \<and> kstr_bytes s1 = v \<and> basename s1 = None"
proof -
  from call_cases [OF inv, of e "Set_text (Some v)"] st
  have "stepped (Set_text (Some v)) s s1" by auto
  then have a: "kstr_inv s1" "kstr_bytes s1 = v"
    by (simp_all add: stepped_def text_of_def strlen_c_string [OF cs])
  from reset_inv [OF inv] obtain r where r: "kstr_reset s = Inr r" "basename r = None"
    by blast
  from st have "kstr_add_chars e r (Some v) (strlen v) True = Some (Inr s1)"
    by (simp add: kstr_set_text_def r(1) kstr_add_text_def)
  from add_chars_basename [OF this] have "basename s1 = None"
    using r(2) by auto
  with a show ?thesis by simp
qed

lemma posix_basename_examples:
  "posix_basename ''/one/two/file'' = ''file''"
  "posix_basename '''' = ''.''"
  "posix_basename ''/'' = ''/''"
  "posix_basename ''.'' = ''.''"
  "posix_basename ''/four/five/six'' = ''six''"
  by (simp_all add: posix_basename_def)

lemma demo_new_path: "kstr_new demo_env (Some ''/one/two/file'') = Some (Inr demo_path)"
  by (simp add: kstr_new_def demo_alloc demo_path_def malloc_buf_def demo_uninit store_def
      sizeof_kstr_def init_size_def kstr_add_text_def kstr_add_chars_def strlen_def nul_def
      grow_until_enough kstr_available_def Let_def)

lemma demo_basename_path: "kstr_basename demo_env demo_path = Inr (''file'', demo_path_cached)"
  by (simp add: kstr_basename_def kstr_get_copy_def c_str_def demo_path_def
      demo_path_cached_def demo_alloc demo_uninit nul_def posix_basename_def Let_def)

lemma demo_inv_cached: "kstr_inv demo_path_cached"
  by (simp add: kstr_inv_def demo_path_cached_def demo_path_def demo_uninit nul_def)

lemma demo_set_six:
  "kstr_set_text demo_env demo_path_cached (Some ''/four/five/six'') = Some (Inr demo_six)"
  by (simp add: kstr_set_text_def kstr_reset_def demo_path_cached_def demo_path_def
      demo_six_def demo_uninit store_def kstr_add_text_def kstr_add_chars_def strlen_def
      nul_def grow_until_enough kstr_available_def Let_def)

lemma demo_basename_six:
  "kstr_basename demo_env demo_six = Inr (''six'', demo_six\<lparr>basename := Some ''six''\<rparr>)"
  by (simp add: kstr_basename_def kstr_get_copy_def c_str_def demo_six_def
      demo_alloc demo_uninit nul_def posix_basename_def Let_def)

lemma demo_basename_empty:
  "kstr_basename demo_env demo_empty = Inr (''.'', demo_empty\<lparr>basename := Some ''.''\<rparr>)"
  by (simp add: kstr_basename_def kstr_get_copy_def c_str_def demo_empty_def
      demo_alloc demo_uninit nul_def posix_basename_def Let_def)

lemma c_string_paths: "c_string ''/one/two/file''" "c_string ''/four/five/six''"
  by (simp_all add: c_string_def nul_def)


lemma add_text_basename:
  assumes "kstr_add_text e s t = Some (Inr s')"
  shows "(t = None \<or> strlen (text_of t) = 0) \<and> s' = s \<or>
         \<not> (t = None \<or> strlen (text_of t) = 0) \<and> basename s' = None"
  using add_chars_basename [OF assms [unfolded kstr_add_text_def]]
  by (cases t) (auto simp: text_of_def)

lemma add_code_basename:
  assumes "kstr_add_chars e s (Some cs) (strlen cs) False = Some (Inr s')"
    and "c_string cs" and "cs \<noteq> []"
  shows "basename s' = None"
proof -
  have "strlen cs \<noteq> 0"
  proof
    assume "strlen cs = 0"
    then have "unat (strlen cs) = 0" by simp
    with strlen_c_string(1) [OF assms(2)] assms(3) show False by simp
  qed
  with add_chars_basename [OF assms(1)] show ?thesis by simp
qed

lemma call_basename:
  assumes "kstr_call e c s = Some (Inr s')"
  shows "if no_op_input c then s' = s else basename s' = None"
proof (cases c)
  case (Set_text t)
  with assms obtain r where r: "kstr_reset s = Inr r"
    and a: "kstr_add_text e r t = Some (Inr s')"
    by (auto simp: kstr_set_text_def split: sum.splits)
  from add_text_basename [OF a] reset_basename [OF r] show ?thesis
    by (auto simp: Set_text)
next
  case (Set_fmt f)
  with assms obtain r where a: "kstr_add_vfmt e r f = Some (Inr s')"
    by (auto simp: kstr_set_fmt_def kstr_set_vfmt_def split: sum.splits)
  from add_vfmt_basename [OF a] show ?thesis by (simp add: Set_fmt)
next
  case (Add_text t)
  with assms have "kstr_add_text e s t = Some (Inr s')" by simp
  from add_text_basename [OF this] show ?thesis by (auto simp: Add_text)
next
  case (Add_fmt f)
  with assms have "kstr_add_vfmt e s f = Some (Inr s')" by (simp add: kstr_add_fmt_def)
  from add_vfmt_basename [OF this] show ?thesis by (simp add: Add_fmt)
next
  case (Add_bold b)
  with assms bold_code_ok(1,2) show ?thesis
    by (cases b) (auto simp: kstr_add_bold_def Let_def intro: add_code_basename)
next
  case (Add_fg col)
  with assms have ir: "\<not> uintmax kstr_num_colors \<le> uintmax col"
    and a: "kstr_add_chars e s (Some (fg_codes ! unat (uintmax col)))
              (strlen (fg_codes ! unat (uintmax col))) False = Some (Inr s')"
    by (auto simp: kstr_add_fg_def Let_def split: if_splits)
  from fg_code_ok [OF color_index [OF ir]] add_code_basename [OF a] show ?thesis
    by (simp add: Add_fg)
next
  case (Add_bg col)
  with assms have ir: "\<not> uintmax kstr_num_colors \<le> uintmax col"
    and a: "kstr_add_chars e s (Some (bg_codes ! unat (uintmax col)))
              (strlen (bg_codes ! unat (uintmax col))) False = Some (Inr s')"
    by (auto simp: kstr_add_bg_def Let_def split: if_splits)
  from bg_code_ok [OF color_index [OF ir]] add_code_basename [OF a] show ?thesis
    by (simp add: Add_bg)
next
  case Add_reset
  with assms bold_code_ok(3) show ?thesis
    by (auto simp: kstr_add_reset_def Let_def intro: add_code_basename)
qed

lemma add_text_nothing:
  "kstr_add_text e s None = Some (Inr s)" "kstr_add_text e s (Some []) = Some (Inr s)"
  by (simp_all add: kstr_add_text_def kstr_add_chars_def strlen_def)


lemma length_uninit: "length (uninit e off n) = n"
  by (simp add: uninit_def)

lemma grow_abort_iff:
  "kstr_grow e s = Inl Abort \<longleftrightarrow>
     data_size s = - 1 \<or> \<not> alloc_ok e (unat (new_size (data_size s)))"
  by (simp add: kstr_grow_eq)

lemma grow_total:
  "kstr_grow e s = Inl Abort \<or> (\<exists>s'. kstr_grow e s = Inr s')"
  by (simp add: kstr_grow_eq)

lemma grow_result:
  assumes "kstr_grow e s = Inr s'"
  shows "data_size s \<noteq> - 1" and "data_size s' = new_size (data_size s)"
    and "used s' = used s" and "width s' = width s" and "basename s' = basename s"
    and "data s' = take (unat (data_size s')) (data s) @
           uninit e (length (data s)) (unat (data_size s') - length (data s))"
  using assms by (auto simp: kstr_grow_eq split: if_splits)

lemma grow_keeps_content:
  assumes g: "kstr_grow e s = Inr s'" and l: "length (data s) = unat (data_size s)"
  shows "take (length (data s)) (data s') = data s"
    and "length (data s') = unat (data_size s')"
    and "unat (data_size s) < unat (data_size s') \<or> data_size s = 0"
proof -
  note r = grow_result [OF g]
  have le: "unat (data_size s) \<le> unat (data_size s')"
    unfolding r(2) unat_new_size using unat_lt_max [of "data_size s"] by simp
  then have tk: "take (unat (data_size s')) (data s) = data s" using l by simp
  with r(6) have d: "data s' = data s @
      uninit e (length (data s)) (unat (data_size s') - length (data s))"
    by simp
  show "take (length (data s)) (data s') = data s" by (subst d) simp
  show "length (data s') = unat (data_size s')"
    using le l by (subst d) (simp add: length_uninit)
  show "unat (data_size s) < unat (data_size s') \<or> data_size s = 0"
    using new_size_grows [OF r(1)] r(2) by auto
qed

lemma demo_huge_size: "unat (data_size demo_huge) = 2 ^ 63"
  by (simp add: demo_huge_def)

lemma new_size_nat:
  "unat (new_size n) = (if 2 * unat n < 2 ^ 64 then 2 * unat n else 2 ^ 64 - 1)"
  by (simp add: unat_new_size)


lemma null_format_fails: "vsnprintf_ret None < 0" "rendered_length None = 0"
  by (simp_all add: vsnprintf_ret_def rendered_length_def)

lemma failed_render_nothing: "vsnprintf_ret fmt < 0 \<Longrightarrow> rendered_length fmt = 0"
  by (simp add: rendered_length_def)

lemma uncached_same:
  "kstr_get (s\<lparr>basename := b\<rparr>) = kstr_get s"
  "kstr_size (s\<lparr>basename := b\<rparr>) = kstr_size s"
  "kstr_width (s\<lparr>basename := b\<rparr>) = kstr_width s"
  "data (s\<lparr>basename := b\<rparr>) = data s"
  by (simp_all add: kstr_get_def kstr_size_def kstr_width_def)

lemma set_vfmt_nothing:
  assumes inv: "kstr_inv s" and r: "rendered_length fmt = 0"
  shows "\<exists>s'. kstr_set_vfmt e s fmt = Some (Inr s') \<and> kstr_inv s' \<and>
     kstr_get s' = Some [] \<and> kstr_size s' = 1 \<and> kstr_width s' = 0 \<and> basename s' = None"
proof -
  from reset_inv [OF inv] obtain r0 where r0: "kstr_reset s = Inr r0" "kstr_inv r0"
    "kstr_bytes r0 = []" "used r0 = 1" "width r0 = 0" "basename r0 = None"
    by blast
  have g: "kstr_get r0 = Some []"
    using get_bytes [OF r0(2)] r0(3) by simp
  have "kstr_set_vfmt e s fmt = Some (Inr (r0\<lparr>basename := None\<rparr>))"
    by (simp add: kstr_set_vfmt_def r0(1) add_vfmt_nothing [OF r0(2) r])
  then show ?thesis
    using r0 g by (simp add: uncached_same inv_basename) (simp add: kstr_size_def kstr_width_def)
qed

lemma demo_uncache: "demo_path_cached\<lparr>basename := None\<rparr> = demo_path"
  by (simp add: demo_path_cached_def demo_path_def)


lemma styling_appended:
  assumes inv: "kstr_inv s" and st: "styling c"
  shows "code_appended (kstr_call e c s) s (call_bytes c)"
proof -
  from st have ns: "\<not> call_sets c" and v0: "call_visible c = 0" by (cases c; simp)+
  from call_cases [OF inv, of e c] show ?thesis
  proof
    assume "kstr_call e c s = Some (Inl Abort)"
    then show ?thesis by (simp add: code_appended_def)
  next
    assume "\<exists>s'. kstr_call e c s = Some (Inr s') \<and> stepped c s s'"
    then obtain s' where r: "kstr_call e c s = Some (Inr s')" and sp: "stepped c s s'"
      by blast
    from sp ns v0 have b: "kstr_bytes s' = kstr_bytes s @ call_bytes c"
      and u: "unat (used s') = unat (used s) + length (call_bytes c)"
      and w: "unat (width s') = unat (width s)"
      by (simp_all add: stepped_def)
    from w have "width s' = width s" by (simp add: word_unat_eq_iff)
    with r b u show ?thesis
      by (simp add: code_appended_def kstr_size_def kstr_width_def)
  qed
qed

lemma color_out_of_range:
  assumes "c < 0 \<or> 9 \<le> c" and "- (2 ^ 63) \<le> c" and "c < 2 ^ 64"
  shows "uintmax kstr_num_colors \<le> uintmax c"
proof -
  have "9 \<le> c mod 2 ^ 64"
  proof (cases "c < 0")
    case True
    have "(c + 2 ^ 64) mod 2 ^ 64 = c + 2 ^ 64"
      using True assms(2) by (intro mod_pos_pos_trivial) simp_all
    then have "c mod 2 ^ 64 = c + 2 ^ 64" by simp
    with assms(2) show ?thesis by simp
  next
    case False
    with assms(1) have "9 \<le> c" by simp
    moreover have "c mod 2 ^ 64 = c"
      using False assms(3) by (intro mod_pos_pos_trivial) simp_all
    ultimately show ?thesis by simp
  qed
  then show ?thesis
    by (simp add: uintmax_def kstr_num_colors_def word_le_def uint_word_of_int)
qed

lemma color_abort:
  assumes "c < 0 \<or> 9 \<le> c" and "- (2 ^ 63) \<le> c" and "c < 2 ^ 64"
  shows "kstr_add_fg e s c = Some (Inl Abort)" and "kstr_add_bg e s c = Some (Inl Abort)"
  using color_out_of_range [OF assms] by (simp_all add: kstr_add_fg_def kstr_add_bg_def)

lemma fg_table:
  "call_bytes (Add_fg kstr_color_default) = ESC # ''[39m''"
  "call_bytes (Add_fg kstr_color_black) = ESC # ''[30m''"
  "call_bytes (Add_fg kstr_color_blue) = ESC # ''[34m''"
  "call_bytes (Add_fg kstr_color_cyan) = ESC # ''[36m''"
  "call_bytes (Add_fg kstr_color_green) = ESC # ''[32m''"
  "call_bytes (Add_fg kstr_color_magenta) = ESC # ''[35m''"
  "call_bytes (Add_fg kstr_color_red) = ESC # ''[31m''"
  "call_bytes (Add_fg kstr_color_white) = ESC # ''[37m''"
  "call_bytes (Add_fg kstr_color_yellow) = ESC # ''[33m''"
  by (simp_all add: fg_codes_def uintmax_def kstr_color_default_def kstr_color_black_def
      kstr_color_blue_def kstr_color_cyan_def kstr_color_green_def kstr_color_magenta_def
      kstr_color_red_def kstr_color_white_def kstr_color_yellow_def)

lemma bg_table:
  "call_bytes (Add_bg kstr_color_default) = ESC # ''[49m''"
  "call_bytes (Add_bg kstr_color_black) = ESC # ''[40m''"
  "call_bytes (Add_bg kstr_color_blue) = ESC # ''[44m''"
  "call_bytes (Add_bg kstr_color_cyan) = ESC # ''[46m''"
  "call_bytes (Add_bg kstr_color_green) = ESC # ''[42m''"
  "call_bytes (Add_bg kstr_color_magenta) = ESC # ''[45m''"
  "call_bytes (Add_bg kstr_color_red) = ESC # ''[41m''"
  "call_bytes (Add_bg kstr_color_white) = ESC # ''[47m''"
  "call_bytes (Add_bg kstr_color_yellow) = ESC # ''[43m''"
  by (simp_all add: bg_codes_def uintmax_def kstr_color_default_def kstr_color_black_def
      kstr_color_blue_def kstr_color_cyan_def kstr_color_green_def kstr_color_magenta_def
      kstr_color_red_def kstr_color_white_def kstr_color_yellow_def)

lemma fg_appended:
  "kstr_inv s \<Longrightarrow> code_appended (kstr_add_fg e s c) s (call_bytes (Add_fg c))"
  using styling_appended [of s "Add_fg c" e] by simp

lemma bg_appended:
  "kstr_inv s \<Longrightarrow> code_appended (kstr_add_bg e s c) s (call_bytes (Add_bg c))"
  using styling_appended [of s "Add_bg c" e] by simp

lemma bold_appended:
  "kstr_inv s \<Longrightarrow> code_appended (kstr_add_bold e s b) s (call_bytes (Add_bold b))"
  using styling_appended [of s "Add_bold b" e] by simp

lemma reset_appended:
  "kstr_inv s \<Longrightarrow> code_appended (kstr_add_reset e s) s (call_bytes Add_reset)"
  using styling_appended [of s Add_reset e] by simp


lemma color_in_range:
  assumes "0 \<le> c" and "c < 9"
  shows "\<not> uintmax kstr_num_colors \<le> uintmax c"
proof -
  have "c mod 2 ^ 64 = c" using assms by (intro mod_pos_pos_trivial) simp_all
  with assms(2) show ?thesis
    by (simp add: uintmax_def kstr_num_colors_def word_le_def uint_word_of_int)
qed

lemma add_code_returns:
  assumes inv: "kstr_inv s" and cs: "c_string cs" and ne: "cs \<noteq> []"
    and len: "length cs \<le> 5" and room: "\<not> kstr_available s < 5"
  shows "kstr_add_chars e s (Some cs) (strlen cs) False \<noteq> Some (Inl Abort)"
proof -
  note sl = strlen_c_string [OF cs]
  have c0: "strlen cs \<noteq> 0"
  proof
    assume "strlen cs = 0"
    then have "unat (strlen cs) = 0" by simp
    with sl(1) ne show False by simp
  qed
  have "unat (strlen cs) \<le> unat (5 :: size_t)" using sl(1) len by simp
  then have "strlen cs \<le> 5" by (simp only: word_le_nat_alt)
  with room have "\<not> kstr_available s < strlen cs" by simp
  then show ?thesis
    by (intro add_chars_returns [OF inv c0 strlen_le_length]) simp
qed

lemma codes_length:
  assumes "k < 9"
  shows "length (fg_codes ! k) \<le> 5" and "length (bg_codes ! k) \<le> 5"
proof -
  have "\<forall>cs \<in> set fg_codes \<union> set bg_codes. length cs \<le> 5"
    by (simp add: fg_codes_def bg_codes_def)
  moreover have "length fg_codes = 9" "length bg_codes = 9"
    by (simp_all add: fg_codes_def bg_codes_def)
  with assms have "fg_codes ! k \<in> set fg_codes" "bg_codes ! k \<in> set bg_codes"
    by (simp_all only: nth_mem)
  moreover note this
  ultimately show "length (fg_codes ! k) \<le> 5" and "length (bg_codes ! k) \<le> 5"
    by blast+
qed

lemma styling_returns:
  assumes inv: "kstr_inv s" and room: "\<not> kstr_available s < 5"
  shows "kstr_add_bold e s b \<noteq> Some (Inl Abort)"
    and "kstr_add_reset e s \<noteq> Some (Inl Abort)"
    and "0 \<le> c \<Longrightarrow> c < 9 \<Longrightarrow> kstr_add_fg e s c \<noteq> Some (Inl Abort)"
    and "0 \<le> c \<Longrightarrow> c < 9 \<Longrightarrow> kstr_add_bg e s c \<noteq> Some (Inl Abort)"
proof -
  show "kstr_add_bold e s b \<noteq> Some (Inl Abort)"
    using add_code_returns [OF inv bold_code_ok(1) _ _ room, of e]
      add_code_returns [OF inv bold_code_ok(2) _ _ room, of e]
    by (cases b) (simp_all add: kstr_add_bold_def Let_def)
  show "kstr_add_reset e s \<noteq> Some (Inl Abort)"
    using add_code_returns [OF inv bold_code_ok(3) _ _ room, of e]
    by (simp add: kstr_add_reset_def Let_def)
  {
    assume c: "0 \<le> c" "c < 9"
    note ir = color_in_range [OF c]
    note k = color_index [OF ir]
    from add_code_returns [OF inv _ _ codes_length(1) [OF k] room, of e] fg_code_ok [OF k]
    show "kstr_add_fg e s c \<noteq> Some (Inl Abort)"
      using ir by (simp add: kstr_add_fg_def Let_def)
    from add_code_returns [OF inv _ _ codes_length(2) [OF k] room, of e] bg_code_ok [OF k]
    show "kstr_add_bg e s c \<noteq> Some (Inl Abort)"
      using ir by (simp add: kstr_add_bg_def Let_def)
  }
qed

lemma color_values:
  "[kstr_color_default, kstr_color_black, kstr_color_blue, kstr_color_cyan,
    kstr_color_green, kstr_color_magenta, kstr_color_red, kstr_color_white,
    kstr_color_yellow] = [0, 1, 2, 3, 4, 5, 6, 7, 8]" "kstr_num_colors = 9"
  by (simp_all add: kstr_color_default_def kstr_color_black_def
      kstr_color_blue_def kstr_color_cyan_def kstr_color_green_def kstr_color_magenta_def
      kstr_color_red_def kstr_color_white_def kstr_color_yellow_def kstr_num_colors_def)

lemma demo_add_red: "kstr_add_fg demo_env demo_ab kstr_color_red = Some (Inr demo_ab_red)"
  by (simp add: demo_ab_def demo_ab_red_def demo_uninit store_def kstr_color_red_def
      kstr_num_colors_def uintmax_def fg_codes_def
      kstr_add_fg_def kstr_add_chars_def strlen_def nul_def ESC_def
      grow_until_enough kstr_available_def Let_def)


lemma room_available:
  assumes inv: "kstr_inv s" and fit: "unat (used s) + unat count \<le> unat (data_size s)"
  shows "\<not> kstr_available s < count"
proof -
  have "used s \<le> data_size s" using inv by (simp add: kstr_inv_def)
  then have "unat (kstr_available s) = unat (data_size s) - unat (used s)"
    by (simp add: kstr_available_def unat_sub)
  with fit have "unat count \<le> unat (kstr_available s)" by simp
  then show ?thesis by (simp add: word_less_nat_alt)
qed

lemma grow_until_returns:
  assumes inv: "kstr_inv s"
    and ok: "unat (used s) + unat count \<le> unat (data_size s) \<or>
             (\<forall>n. alloc_ok e n) \<and> unat (used s) + unat count \<le> 2 ^ 64 - 1"
  shows "\<exists>s1. grow_until e s count = Some (Inr s1)"
proof -
  note n = inv_nat [OF inv]
  have nz: "data_size s \<noteq> 0" using n(4) by (auto simp: unat_eq_0 [symmetric])
  have us: "used s \<le> data_size s" using inv by (simp add: kstr_inv_def)
  from ok show ?thesis
  proof
    assume "unat (used s) + unat count \<le> unat (data_size s)"
    from room_available [OF inv this] show ?thesis by (simp add: grow_until_enough)
  next
    assume "(\<forall>n. alloc_ok e n) \<and> unat (used s) + unat count \<le> 2 ^ 64 - 1"
    then show ?thesis using grow_until_succeeds [OF n(5) nz _ us, of e count] by simp
  qed
qed

lemma add_chars_no_abort:
  assumes inv: "kstr_inv s"
    and ok: "unat (used s) + unat count \<le> unat (data_size s) \<or>
             (\<forall>n. alloc_ok e n) \<and> unat (used s) + unat count \<le> 2 ^ 64 - 1"
  shows "kstr_add_chars e s chars count vis \<noteq> Some (Inl Abort)"
proof -
  from grow_until_returns [OF inv ok] obtain s1 where "grow_until e s count = Some (Inr s1)"
    by blast
  then show ?thesis
    by (auto simp: kstr_add_chars_def Let_def split: option.splits if_splits)
qed

lemma add_vfmt_no_abort:
  assumes inv: "kstr_inv s"
    and ok: "unat (used s) + rendered_length fmt \<le> unat (data_size s) \<or>
             (\<forall>n. alloc_ok e n) \<and> unat (used s) + rendered_length fmt \<le> 2 ^ 64 - 1"
  shows "kstr_add_vfmt e s fmt \<noteq> Some (Inl Abort)"
proof -
  from ok have "unat (used s) + unat (of_nat (rendered_length fmt) :: size_t) \<le> unat (data_size s) \<or>
             (\<forall>n. alloc_ok e n) \<and>
             unat (used s) + unat (of_nat (rendered_length fmt) :: size_t) \<le> 2 ^ 64 - 1"
    by (simp only: unat_vfmt_count)
  from grow_until_returns [OF inv this] obtain s1 where
    "grow_until e s (of_nat (rendered_length fmt)) = Some (Inr s1)"
    by blast
  then show ?thesis
    unfolding kstr_add_vfmt_def Let_def vfmt_count
    by (auto split: option.splits if_splits)
qed

lemma strlen_min: "min (length t) (unat (strlen t)) = unat (strlen t)"
  using strlen_le_length [of t] by simp

lemma add_text_no_abort:
  assumes inv: "kstr_inv s"
    and ok: "unat (used s) + unat (strlen (text_of t)) \<le> unat (data_size s) \<or>
             (\<forall>n. alloc_ok e n) \<and> unat (used s) + unat (strlen (text_of t)) \<le> 2 ^ 64 - 1"
  shows "kstr_add_text e s t \<noteq> Some (Inl Abort)"
proof (cases t)
  case None
  then show ?thesis by (simp add: kstr_add_text_def kstr_add_chars_def)
next
  case (Some cs)
  with ok add_chars_no_abort [OF inv, of "strlen cs" e "Some cs" True] show ?thesis
    by (simp add: kstr_add_text_def text_of_def)
qed

lemma call_no_abort:
  assumes inv: "kstr_inv s" and en: "in_enum c"
    and ok: "call_needs c s \<le> unat (data_size s) \<or>
             (\<forall>n. alloc_ok e n) \<and> call_needs c s \<le> 2 ^ 64 - 1"
  shows "kstr_call e c s \<noteq> Some (Inl Abort)"
proof (cases c)
  case (Set_text t)
  from reset_inv [OF inv] obtain r where r: "kstr_reset s = Inr r" "kstr_inv r"
    "used r = 1" "data_size r = data_size s" by blast
  from ok have "unat (used r) + unat (strlen (text_of t)) \<le> unat (data_size r) \<or>
             (\<forall>n. alloc_ok e n) \<and> unat (used r) + unat (strlen (text_of t)) \<le> 2 ^ 64 - 1"
    by (simp add: call_needs_def Set_text r(3,4) strlen_min)
  from add_text_no_abort [OF r(2) this] show ?thesis
    by (simp add: Set_text kstr_set_text_def r(1))
next
  case (Set_fmt f)
  from reset_inv [OF inv] obtain r where r: "kstr_reset s = Inr r" "kstr_inv r"
    "used r = 1" "data_size r = data_size s" by blast
  from ok have "unat (used r) + rendered_length f \<le> unat (data_size r) \<or>
             (\<forall>n. alloc_ok e n) \<and> unat (used r) + rendered_length f \<le> 2 ^ 64 - 1"
    by (simp add: call_needs_def Set_fmt r(3,4) rendered_length_bytes)
  from add_vfmt_no_abort [OF r(2) this] show ?thesis
    by (simp add: Set_fmt kstr_set_fmt_def kstr_set_vfmt_def r(1))
next
  case (Add_text t)
  from ok have "unat (used s) + unat (strlen (text_of t)) \<le> unat (data_size s) \<or>
             (\<forall>n. alloc_ok e n) \<and> unat (used s) + unat (strlen (text_of t)) \<le> 2 ^ 64 - 1"
    by (simp add: call_needs_def Add_text strlen_min)
  from add_text_no_abort [OF inv this] show ?thesis by (simp add: Add_text)
next
  case (Add_fmt f)
  from ok have "unat (used s) + rendered_length f \<le> unat (data_size s) \<or>
             (\<forall>n. alloc_ok e n) \<and> unat (used s) + rendered_length f \<le> 2 ^ 64 - 1"
    by (simp add: call_needs_def Add_fmt rendered_length_bytes)
  from add_vfmt_no_abort [OF inv this] show ?thesis
    by (simp add: Add_fmt kstr_add_fmt_def)
next
  case (Add_bold b)
  let ?cs = "if b then ESC # ''[1m'' else ESC # ''[22m''"
  have cs: "c_string ?cs" using bold_code_ok(1,2) by simp
  from ok have "unat (used s) + unat (strlen ?cs) \<le> unat (data_size s) \<or>
             (\<forall>n. alloc_ok e n) \<and> unat (used s) + unat (strlen ?cs) \<le> 2 ^ 64 - 1"
    by (simp only: call_needs_def Add_bold call_sets.simps call_bytes.simps if_False
        strlen_c_string(1) [OF cs])
  from add_chars_no_abort [OF inv this] show ?thesis
    by (simp add: Add_bold kstr_add_bold_def Let_def)
next
  case (Add_fg col)
  with en have ir: "\<not> uintmax kstr_num_colors \<le> uintmax col"
    by (simp add: color_in_range)
  let ?cs = "fg_codes ! unat (uintmax col)"
  have cs: "c_string ?cs" using fg_code_ok [OF color_index [OF ir]] by simp
  from ok have "unat (used s) + unat (strlen ?cs) \<le> unat (data_size s) \<or>
             (\<forall>n. alloc_ok e n) \<and> unat (used s) + unat (strlen ?cs) \<le> 2 ^ 64 - 1"
    by (simp only: call_needs_def Add_fg call_sets.simps call_bytes.simps if_False
        strlen_c_string(1) [OF cs])
  from add_chars_no_abort [OF inv this] ir show ?thesis
    by (simp add: Add_fg kstr_add_fg_def Let_def)
next
  case (Add_bg col)
  with en have ir: "\<not> uintmax kstr_num_colors \<le> uintmax col"
    by (simp add: color_in_range)
  let ?cs = "bg_codes ! unat (uintmax col)"
  have cs: "c_string ?cs" using bg_code_ok [OF color_index [OF ir]] by simp
  from ok have "unat (used s) + unat (strlen ?cs) \<le> unat (data_size s) \<or>
             (\<forall>n. alloc_ok e n) \<and> unat (used s) + unat (strlen ?cs) \<le> 2 ^ 64 - 1"
    by (simp only: call_needs_def Add_bg call_sets.simps call_bytes.simps if_False
        strlen_c_string(1) [OF cs])
  from add_chars_no_abort [OF inv this] ir show ?thesis
    by (simp add: Add_bg kstr_add_bg_def Let_def)
next
  case Add_reset
  let ?cs = "ESC # ''[0m''"
  have cs: "c_string ?cs" by (rule bold_code_ok(3))
  from ok have "unat (used s) + unat (strlen ?cs) \<le> unat (data_size s) \<or>
             (\<forall>n. alloc_ok e n) \<and> unat (used s) + unat (strlen ?cs) \<le> 2 ^ 64 - 1"
    by (simp only: call_needs_def Add_reset call_sets.simps call_bytes.simps if_False
        strlen_c_string(1) [OF cs])
  from add_chars_no_abort [OF inv this] show ?thesis
    by (simp add: Add_reset kstr_add_reset_def Let_def)
qed

lemma calls_cases:
  assumes "kstr_inv s"
  shows "kstr_calls cs s = Some (Inl Abort) \<or>
     (\<exists>s'. kstr_calls cs s = Some (Inr s') \<and> kstr_inv s' \<and>
        unat (width s') = visible_sum (unat (width s)) (map snd cs))"
  using assms
proof (induction cs arbitrary: s)
  case Nil
  then show ?case by simp
next
  case (Cons ec cs)
  obtain e c where ec: "ec = (e, c)" by (cases ec)
  from call_cases [OF Cons.prems, of e c] show ?case
  proof
    assume "kstr_call e c s = Some (Inl Abort)"
    then show ?thesis by (simp add: ec)
  next
    assume "\<exists>s1. kstr_call e c s = Some (Inr s1) \<and> stepped c s s1"
    then obtain s1 where s1: "kstr_call e c s = Some (Inr s1)" and st: "stepped c s s1"
      by blast
    from st have inv1: "kstr_inv s1"
      and w1: "unat (width s1) = (if call_sets c then 0 else unat (width s)) + call_visible c"
      by (simp_all add: stepped_def)
    from Cons.IH [OF inv1] show ?thesis
      by (simp add: ec s1 visible_sum_step w1)
  qed
qed


lemma call_width:
  assumes inv: "kstr_inv s"
  shows "kstr_call e c s = Some (Inl Abort) \<or>
     (\<exists>s'. kstr_call e c s = Some (Inr s') \<and> kstr_inv s' \<and>
        unat (kstr_width s') = visible_sum (unat (kstr_width s)) [c] \<and>
        (styling c \<longrightarrow> kstr_width s' = kstr_width s))"
proof -
  from call_cases [OF inv, of e c] show ?thesis
  proof
    assume "kstr_call e c s = Some (Inl Abort)"
    then show ?thesis by simp
  next
    assume "\<exists>s'. kstr_call e c s = Some (Inr s') \<and> stepped c s s'"
    then obtain s' where r: "kstr_call e c s = Some (Inr s')" and st: "stepped c s s'"
      by blast
    from st have inv': "kstr_inv s'"
      and w: "unat (width s') = (if call_sets c then 0 else unat (width s)) + call_visible c"
      by (simp_all add: stepped_def)
    have "styling c \<longrightarrow> kstr_width s' = kstr_width s"
      using styling_width [OF inv _ r] by (simp add: kstr_width_def)
    with r inv' w show ?thesis
      by (simp add: kstr_width_def visible_sum_step)
  qed
qed

lemma new_then_calls:
  "kstr_new e0 t = Some (Inl Abort) \<or>
      (\<exists>s0. kstr_new e0 t = Some (Inr s0) \<and>
         unat (kstr_width s0) = unat (strlen (text_of t)) \<and>
         (kstr_calls cs s0 = Some (Inl Abort) \<or>
          (\<exists>s. kstr_calls cs s0 = Some (Inr s) \<and>
             unat (kstr_width s) = visible_sum (unat (strlen (text_of t))) (map snd cs))))"
proof -
  from new_cases [of e0 t] show ?thesis
  proof
    assume "kstr_new e0 t = Some (Inl Abort)"
    then show ?thesis by simp
  next
    assume "\<exists>s. kstr_new e0 t = Some (Inr s) \<and> kstr_inv s \<and>
        kstr_bytes s = take (unat (strlen (text_of t))) (text_of t) \<and>
        unat (used s) = 1 + unat (strlen (text_of t)) \<and>
        unat (width s) = unat (strlen (text_of t))"
    then obtain s0 where s0: "kstr_new e0 t = Some (Inr s0)" "kstr_inv s0"
      "unat (width s0) = unat (strlen (text_of t))" by blast
    from calls_cases [OF s0(2), of cs] s0(1,3) show ?thesis
      by (auto simp: kstr_width_def)
  qed
qed

lemma styling_invisible: "styling c \<Longrightarrow> call_visible c = 0 \<and> \<not> call_sets c"
  by (cases c) simp_all

lemma demo_needs_fmt:
  "call_needs (Add_fmt (Some (Renders ''xyz''))) demo_ab \<le> unat (data_size demo_ab)"
  by (simp add: call_needs_def rendered_bytes_def INT_MAX_def demo_ab_def)

lemma demo_sum_fmt: "visible_sum 2 (map snd [(demo_env, Add_fmt (Some (Renders ''xyz'')))]) = 5"
  by (simp add: rendered_length_def vsnprintf_ret_def INT_MAX_def)


lemma call_cache:
  assumes inv: "kstr_inv s"
  shows "kstr_call e c s = Some (Inl Abort) \<or>
     (\<exists>s'. kstr_call e c s = Some (Inr s') \<and>
        (if no_op_input c then s' = s else basename s' = None))"
  using call_cases [OF inv, of e c] call_basename [of e c s] by blast

lemma demo_needs_fmt_cached:
  "call_needs (Add_fmt (Some (Renders ''xyz''))) demo_path_cached
     \<le> unat (data_size demo_path_cached)"
  by (simp add: call_needs_def rendered_bytes_def INT_MAX_def demo_path_cached_def
      demo_path_def)


lemma c_text_nul_free: "nul \<notin> set (c_text t)"
  by (auto simp: c_text_def dest: set_takeWhileD)

lemma c_text_c_string: "c_string t \<Longrightarrow> c_text t = t"
  by (auto simp: c_text_def c_string_def)

lemma take_c_text:
  assumes "length (c_text t) < 2 ^ 64"
  shows "unat (strlen t) = length (c_text t)" and "take (unat (strlen t)) t = c_text t"
proof -
  show u: "unat (strlen t) = length (c_text t)"
    using assms by (simp add: strlen_def c_text_def unat_of_nat)
  have "take (length (c_text t)) (c_text t @ dropWhile (\<lambda>c. c \<noteq> nul) t) = c_text t"
    by simp
  then show "take (unat (strlen t)) t = c_text t"
    by (simp add: u c_text_def)
qed

lemma new_c_text:
  assumes "length (c_text T) < 2 ^ 64"
  shows "kstr_new e (Some T) = Some (Inl Abort) \<or>
     (\<exists>s. kstr_new e (Some T) = Some (Inr s) \<and> kstr_get s = Some (c_text T))"
proof -
  from new_cases [of e "Some T"] show ?thesis
  proof
    assume "kstr_new e (Some T) = Some (Inl Abort)"
    then show ?thesis by simp
  next
    assume "\<exists>s. kstr_new e (Some T) = Some (Inr s) \<and> kstr_inv s \<and>
        kstr_bytes s = take (unat (strlen (text_of (Some T)))) (text_of (Some T)) \<and>
        unat (used s) = 1 + unat (strlen (text_of (Some T))) \<and>
        unat (width s) = unat (strlen (text_of (Some T)))"
    then obtain s where s: "kstr_new e (Some T) = Some (Inr s)" "kstr_inv s"
      "kstr_bytes s = c_text T"
      by (auto simp: text_of_def take_c_text(2) [OF assms])
    from get_bytes [OF s(2)] s(3) have "kstr_get s = Some (c_text T)"
      by (simp add: c_text_nul_free)
    with s(1) show ?thesis by simp
  qed
qed

lemma demo_c_text: "c_text [CHR ''a'', nul, CHR ''b''] = ''a''"
  by (simp add: c_text_def nul_def)


lemma inv_get:
  assumes "kstr_inv s"
  shows "\<exists>g. kstr_get s = Some g"
proof -
  note n = inv_nat [OF assms]
  have "unat (used s) - 1 < length (data s)" using n(1,2,5) by simp
  then have "data s ! (unat (used s) - 1) \<in> set (data s)" by (rule nth_mem)
  then have "nul \<in> set (data s)" using n(6) by simp
  then show ?thesis by (simp add: kstr_get_def c_str_def)
qed

lemma cache_ok_simps:
  "basename s = None \<Longrightarrow> cache_ok s"
  "kstr_get s = Some g \<Longrightarrow> cache_ok (s\<lparr>basename := Some (posix_basename g)\<rparr>)"
  by (simp_all add: cache_ok_def kstr_get_def)

lemma new_cache:
  "kstr_new e t = Some (Inl Abort) \<or>
     (\<exists>s0. kstr_new e t = Some (Inr s0) \<and> kstr_inv s0 \<and> cache_ok s0)"
  using new_cases [of e t] new_basename [of e t] by (auto intro: cache_ok_simps(1))

lemma call_cache_ok:
  assumes inv: "kstr_inv s" and ok: "cache_ok s"
  shows "kstr_call e c s = Some (Inl Abort) \<or>
     (\<exists>s1. kstr_call e c s = Some (Inr s1) \<and> kstr_inv s1 \<and> cache_ok s1)"
proof -
  from call_cases [OF inv, of e c] show ?thesis
  proof
    assume "kstr_call e c s = Some (Inl Abort)"
    then show ?thesis by simp
  next
    assume "\<exists>s'. kstr_call e c s = Some (Inr s') \<and> stepped c s s'"
    then obtain s1 where r: "kstr_call e c s = Some (Inr s1)" and st: "stepped c s s1"
      by blast
    from st have inv1: "kstr_inv s1" by (simp add: stepped_def)
    from call_basename [OF r] have "s1 = s \<or> basename s1 = None"
      by (auto split: if_splits)
    with ok have "cache_ok s1" by (auto intro: cache_ok_simps(1))
    with r inv1 show ?thesis by simp
  qed
qed

lemma basename_live:
  assumes inv: "kstr_inv s" and ok: "cache_ok s"
  shows "kstr_basename e s = Inl Abort \<or>
     (\<exists>g. kstr_get s = Some g \<and>
        kstr_basename e s =
          Inr (posix_basename g, s\<lparr>basename := Some (posix_basename g)\<rparr>) \<and>
        kstr_inv (s\<lparr>basename := Some (posix_basename g)\<rparr>) \<and>
        cache_ok (s\<lparr>basename := Some (posix_basename g)\<rparr>))"
proof -
  from inv_get [OF inv] obtain g where g: "kstr_get s = Some g" by blast
  have st: "kstr_inv (s\<lparr>basename := Some (posix_basename g)\<rparr>)"
    "cache_ok (s\<lparr>basename := Some (posix_basename g)\<rparr>)"
    using inv g by (simp_all add: inv_basename cache_ok_simps(2))
  show ?thesis
  proof (cases "basename s")
    case None
    with g have "kstr_basename e s = Inl Abort \<or>
        kstr_basename e s =
          Inr (posix_basename g, s\<lparr>basename := Some (posix_basename g)\<rparr>)"
      by (simp add: kstr_basename_def kstr_get_copy_def kstr_get_def Let_def)
    with g st show ?thesis by blast
  next
    case (Some b)
    with ok g have b: "b = posix_basename g" by (simp add: cache_ok_def)
    with Some have same: "s\<lparr>basename := Some (posix_basename g)\<rparr> = s" by simp
    have "kstr_basename e s = Inr (posix_basename g, s)"
      using Some b by (simp add: kstr_basename_def)
    with g st same show ?thesis by simp
  qed
qed

lemma basename_no_abort:
  assumes inv: "kstr_inv s" and al: "\<forall>n. alloc_ok e n"
  shows "kstr_basename e s \<noteq> Inl Abort"
proof -
  from inv_get [OF inv] obtain g where g: "kstr_get s = Some g" by blast
  then show ?thesis
    using al
    by (cases "basename s") (simp_all add: kstr_basename_def kstr_get_copy_def kstr_get_def
        Let_def)
qed

lemma demo_inv_bold: "kstr_inv demo_ab_bold"
  by (rule inv_natI) (simp_all add: demo_ab_bold_def demo_uninit nul_def)

lemma demo_cache_bold: "cache_ok demo_ab_bold"
  by (simp add: cache_ok_def demo_ab_bold_def)

lemma demo_basename_code: "posix_basename (''ab'' @ ESC # ''[1m'') = ''ab'' @ ESC # ''[1m''"
  by (simp add: posix_basename_def ESC_def)


lemma grow_abort_refusing:
  assumes "\<not> alloc_ok e (2 ^ 64 - 1)"
  shows "kstr_grow e s = Inl Abort \<longleftrightarrow>
     data_size s = - 1 \<or> 2 ^ 64 \<le> 2 * unat (data_size s) \<or>
     \<not> alloc_ok e (2 * unat (data_size s))"
proof (cases "2 * unat (data_size s) < 2 ^ 64")
  case True
  then show ?thesis unfolding grow_abort_iff new_size_nat by simp
next
  case False
  with assms show ?thesis unfolding grow_abort_iff new_size_nat by simp
qed

lemma grow_doubles_refusing:
  assumes r: "\<not> alloc_ok e (2 ^ 64 - 1)" and g: "kstr_grow e s = Inr s'"
  shows "unat (data_size s') = 2 * unat (data_size s)"
proof -
  from g have "kstr_grow e s \<noteq> Inl Abort" by simp
  with grow_abort_refusing [OF r, of s] have "2 * unat (data_size s) < 2 ^ 64" by simp
  with grow_result(2) [OF g] show ?thesis by (simp add: new_size_nat)
qed

lemma demo_host_refuses: "\<not> alloc_ok demo_host (2 ^ 64 - 1)"
  by (simp add: demo_host_def)

lemma demo_host_uninit: "uninit demo_host off n = uninit demo_env off n"
  by (simp add: uninit_def demo_host_def demo_env_def)

lemma demo_host_grow_ab: "kstr_grow demo_host demo_ab = Inr demo_ab_grown"
proof -
  have n: "new_size (data_size demo_ab) = 128"
    by (simp add: new_size_def demo_ab_def grow_factor_def)
  have l: "length (data demo_ab) = 64" by (simp add: demo_ab_def demo_uninit)
  have a: "alloc_ok demo_host 128" by (simp add: demo_host_def)
  show ?thesis
    unfolding kstr_grow_eq n using l a
    by (simp add: demo_ab_grown_def demo_host_uninit) (simp add: demo_ab_def)
qed

lemma demo_max_size: "data_size demo_huge_grown = - 1"
  by (simp add: demo_huge_grown_def)

section \<open>The claims\<close>

text \<open>
  C1.  Every public operation keeps the representation invariant of a live string:
  \<^verbatim>\<open>kstr_new\<close> either aborts or returns a string that satisfies it, and on a string that
  satisfies it \<^verbatim>\<open>kstr_copy\<close> and each of the calls \<^verbatim>\<open>kstr_set_text\<close>, \<^verbatim>\<open>kstr_set_fmt\<close>,
  \<^verbatim>\<open>kstr_add_text\<close>, \<^verbatim>\<open>kstr_add_fmt\<close>, \<^verbatim>\<open>kstr_add_bold\<close>, \<^verbatim>\<open>kstr_add_fg\<close>, \<^verbatim>\<open>kstr_add_bg\<close>
  and \<^verbatim>\<open>kstr_add_reset\<close> either aborts or returns a string that satisfies it: at least one
  byte is used, the byte at index \<open>used - 1\<close> is the terminator, the width is at most
  \<open>used - 1\<close>, and the capacity is at least \<open>used\<close> and at least 64.
\<close>

theorem invariant_preserved:
  "(kstr_new e t = Some (Inl Abort) \<or> (\<exists>s0. kstr_new e t = Some (Inr s0) \<and> kstr_inv s0)) \<and>
   (kstr_inv s \<longrightarrow>
      (kstr_copy e s = Inl Abort \<or> (\<exists>s1. kstr_copy e s = Inr s1 \<and> kstr_inv s1)) \<and>
      (kstr_call e c s = Some (Inl Abort) \<or>
         (\<exists>s'. kstr_call e c s = Some (Inr s') \<and> kstr_inv s')))"
proof (intro conjI impI)
  show "kstr_new e t = Some (Inl Abort) \<or> (\<exists>s0. kstr_new e t = Some (Inr s0) \<and> kstr_inv s0)"
    using new_cases [of e t] by blast
next
  assume inv: "kstr_inv s"
  show "kstr_copy e s = Inl Abort \<or> (\<exists>s1. kstr_copy e s = Inr s1 \<and> kstr_inv s1)"
    using copy_cases [OF inv, of e] inv by (auto simp: inv_basename)
  show "kstr_call e c s = Some (Inl Abort) \<or>
         (\<exists>s'. kstr_call e c s = Some (Inr s') \<and> kstr_inv s')"
    using call_cases [OF inv, of e c] by (auto simp: stepped_def)
qed

theorem invariant_preserved_witness:
  "kstr_new demo_env (Some ''ab'') = Some (Inr demo_ab) \<and> kstr_inv demo_ab \<and>
   kstr_copy demo_env demo_ab = Inr demo_ab \<and>
   kstr_call demo_env (Add_bold True) demo_ab = Some (Inr demo_ab_bold) \<and>
   kstr_inv demo_ab_bold"
  using invariant_preserved [of demo_env "Some ''ab''" demo_ab "Add_bold True"]
    demo_new demo_bold demo_inv demo_copy
  by simp

text \<open>
  C2.  \<^verbatim>\<open>kstr_new\<close> aborts or returns a string whose width is the length of its text, and
  any sequence of calls on it aborts or returns with a width that is the sum of the byte
  lengths of the visible content (\<open>visible_sum\<close>: text and rendered bytes are added, a
  set call starts the sum again, styling calls add nothing).  Each single call on a live
  string aborts or returns with the width so updated, and a styling call (bold,
  foreground, background, reset) returns with the width unchanged.  No call aborts when
  the buffer has room for what it adds, or when the allocator never refuses and the
  result fits a \<^verbatim>\<open>size_t\<close>.  When no call of a sequence is a set call the sum is the
  initial width plus the sum over the calls.
\<close>

theorem width_is_visible_sum:
  "(kstr_new e0 t = Some (Inl Abort) \<or>
      (\<exists>s0. kstr_new e0 t = Some (Inr s0) \<and>
         unat (kstr_width s0) = unat (strlen (text_of t)) \<and>
         (kstr_calls cs s0 = Some (Inl Abort) \<or>
          (\<exists>s. kstr_calls cs s0 = Some (Inr s) \<and>
             unat (kstr_width s) = visible_sum (unat (strlen (text_of t))) (map snd cs))))) \<and>
   (kstr_inv s1 \<longrightarrow>
      kstr_call e c s1 = Some (Inl Abort) \<or>
      (\<exists>s2. kstr_call e c s1 = Some (Inr s2) \<and> kstr_inv s2 \<and>
         unat (kstr_width s2) = visible_sum (unat (kstr_width s1)) [c] \<and>
         (styling c \<longrightarrow> kstr_width s2 = kstr_width s1))) \<and>
   (kstr_inv s1 \<and> in_enum c \<and>
      (call_needs c s1 \<le> unat (data_size s1) \<or>
       (\<forall>n. alloc_ok e n) \<and> call_needs c s1 \<le> 2 ^ 64 - 1) \<longrightarrow>
      kstr_call e c s1 \<noteq> Some (Inl Abort)) \<and>
   (styling c \<longrightarrow> call_visible c = 0 \<and> \<not> call_sets c) \<and>
   ((\<forall>c \<in> set (map snd cs). \<not> call_sets c) \<longrightarrow>
      visible_sum w (map snd cs) = w + sum_list (map call_visible (map snd cs)))"
proof (intro conjI impI)
  show "kstr_new e0 t = Some (Inl Abort) \<or>
      (\<exists>s0. kstr_new e0 t = Some (Inr s0) \<and>
         unat (kstr_width s0) = unat (strlen (text_of t)) \<and>
         (kstr_calls cs s0 = Some (Inl Abort) \<or>
          (\<exists>s. kstr_calls cs s0 = Some (Inr s) \<and>
             unat (kstr_width s) = visible_sum (unat (strlen (text_of t))) (map snd cs))))"
    by (rule new_then_calls)
next
  assume "kstr_inv s1"
  then show "kstr_call e c s1 = Some (Inl Abort) \<or>
      (\<exists>s2. kstr_call e c s1 = Some (Inr s2) \<and> kstr_inv s2 \<and>
         unat (kstr_width s2) = visible_sum (unat (kstr_width s1)) [c] \<and>
         (styling c \<longrightarrow> kstr_width s2 = kstr_width s1))"
    by (rule call_width)
next
  assume "kstr_inv s1 \<and> in_enum c \<and>
      (call_needs c s1 \<le> unat (data_size s1) \<or>
       (\<forall>n. alloc_ok e n) \<and> call_needs c s1 \<le> 2 ^ 64 - 1)"
  then show "kstr_call e c s1 \<noteq> Some (Inl Abort)"
    by (intro call_no_abort) simp_all
next
  assume "styling c"
  then show "call_visible c = 0" "\<not> call_sets c" by (simp_all add: styling_invisible)
next
  assume "\<forall>c \<in> set (map snd cs). \<not> call_sets c"
  then show "visible_sum w (map snd cs) = w + sum_list (map call_visible (map snd cs))"
    by (rule visible_sum_adds)
qed

theorem width_is_visible_sum_witness:
  "kstr_new demo_env (Some ''ab'') = Some (Inr demo_ab) \<and>
   kstr_calls [(demo_env, Add_bold True)] demo_ab = Some (Inr demo_ab_bold) \<and>
   unat (kstr_width demo_ab_bold) = 2 \<and>
   kstr_inv demo_ab \<and> styling (Add_bold True) \<and>
   kstr_width demo_ab_bold = kstr_width demo_ab \<and>
   in_enum (Add_fmt (Some (Renders ''xyz''))) \<and>
   call_needs (Add_fmt (Some (Renders ''xyz''))) demo_ab \<le> unat (data_size demo_ab) \<and>
   (\<exists>s. kstr_call demo_env (Add_fmt (Some (Renders ''xyz''))) demo_ab = Some (Inr s) \<and>
      unat (kstr_width s) = 5) \<and>
   \<not> call_sets (Add_bold True) \<and>
   visible_sum 2 (map snd [(demo_env, Add_bold True)]) = 2"
proof -
  note a = width_is_visible_sum [where ?e0.0 = demo_env and t = "Some ''ab''"
      and cs = "[(demo_env, Add_bold True)]" and ?s1.0 = demo_ab and e = demo_env
      and c = "Add_bold True" and w = 2]
  note b = width_is_visible_sum [where ?e0.0 = demo_env and t = "Some ''ab''"
      and cs = "[(demo_env, Add_bold True)]" and ?s1.0 = demo_ab and e = demo_env
      and c = "Add_fmt (Some (Renders ''xyz''))" and w = 2]
  have w0: "unat (kstr_width demo_ab) = 2" by (simp add: kstr_width_def demo_ab_def)
  from a demo_new demo_calls have 1: "unat (kstr_width demo_ab_bold) = 2"
    by (simp add: text_of_def strlen_def nul_def)
  from a demo_inv demo_bold have 2: "kstr_width demo_ab_bold = kstr_width demo_ab"
    by simp
  from b demo_inv demo_needs_fmt
  have 3: "\<exists>s. kstr_call demo_env (Add_fmt (Some (Renders ''xyz''))) demo_ab = Some (Inr s) \<and>
      unat (kstr_width s) = 5"
    using demo_sum_fmt w0 by auto
  from a have 4: "visible_sum 2 (map snd [(demo_env, Add_bold True)]) = 2" by simp
  from demo_new demo_calls 1 demo_inv 2 demo_needs_fmt 3 4 show ?thesis by simp
qed

text \<open>
  C3.  As stated the claim fails for a text that holds a nul byte, as a value with all
  256 byte values does: \<^verbatim>\<open>strlen\<close> stops at the first nul, so the string made from
  the bytes \<open>a\<close>, nul, \<open>b\<close> reads back as \<open>a\<close>.
\<close>

theorem new_get_counterexample:
  "kstr_new demo_env (Some [CHR ''a'', nul, CHR ''b'']) = Some (Inr demo_a) \<and>
   kstr_get demo_a \<noteq> Some [CHR ''a'', nul, CHR ''b'']"
  using demo_new_a demo_get_a by simp

text \<open>
  C3, amended.  For every initial text \<open>T\<close>, \<^verbatim>\<open>kstr_new\<close> aborts or returns a string whose
  \<^verbatim>\<open>kstr_get\<close> is \<open>T\<close> up to its first nul byte (\<open>c_text T\<close>).  So for every \<open>T\<close> that is a
  C string (no nul byte: the empty string, a 1 KiB value, a value with all 255
  non-zero byte values, multi-byte UTF-8 sequences) \<^verbatim>\<open>kstr_get\<close> is \<open>T\<close> itself; for an
  absent text \<^verbatim>\<open>kstr_get\<close> is empty; and when the allocator never refuses,
  \<^verbatim>\<open>kstr_new\<close> returns.
\<close>

theorem new_get_c_string:
  "(length (c_text T) < 2 ^ 64 \<longrightarrow>
      kstr_new e (Some T) = Some (Inl Abort) \<or>
      (\<exists>s. kstr_new e (Some T) = Some (Inr s) \<and> kstr_get s = Some (c_text T))) \<and>
   (c_string T \<longrightarrow>
      c_text T = T \<and>
      (kstr_new e (Some T) = Some (Inl Abort) \<or>
       (\<exists>s. kstr_new e (Some T) = Some (Inr s) \<and> kstr_get s = Some T))) \<and>
   (kstr_new e None = Some (Inl Abort) \<or>
      (\<exists>s. kstr_new e None = Some (Inr s) \<and> kstr_get s = Some [])) \<and>
   ((\<forall>n. alloc_ok e n) \<and> length T + 2 \<le> 2 ^ 64 \<longrightarrow>
      kstr_new e (Some T) \<noteq> Some (Inl Abort) \<and> kstr_new e None \<noteq> Some (Inl Abort))"
proof (intro conjI impI)
  assume "length (c_text T) < 2 ^ 64"
  then show "kstr_new e (Some T) = Some (Inl Abort) \<or>
      (\<exists>s. kstr_new e (Some T) = Some (Inr s) \<and> kstr_get s = Some (c_text T))"
    by (rule new_c_text)
next
  assume cs: "c_string T"
  then show "c_text T = T" by (rule c_text_c_string)
  from new_c_string [OF cs, of e]
  show "kstr_new e (Some T) = Some (Inl Abort) \<or>
      (\<exists>s. kstr_new e (Some T) = Some (Inr s) \<and> kstr_get s = Some T)"
    by blast
next
  from new_null [of e]
  show "kstr_new e None = Some (Inl Abort) \<or>
      (\<exists>s. kstr_new e None = Some (Inr s) \<and> kstr_get s = Some [])"
    by blast
next
  assume a: "(\<forall>n. alloc_ok e n) \<and> length T + 2 \<le> 2 ^ 64"
  then show "kstr_new e (Some T) \<noteq> Some (Inl Abort)"
    by (intro new_returns) (simp_all add: text_of_def)
  from a show "kstr_new e None \<noteq> Some (Inl Abort)"
    by (intro new_returns) (simp_all add: text_of_def)
qed

theorem new_get_c_string_witness:
  "c_string ''ab'' \<and> kstr_new demo_env (Some ''ab'') = Some (Inr demo_ab) \<and>
   kstr_get demo_ab = Some ''ab'' \<and>
   length (c_text [CHR ''a'', nul, CHR ''b'']) < (2::nat) ^ 64 \<and>
   kstr_new demo_env (Some [CHR ''a'', nul, CHR ''b'']) = Some (Inr demo_a) \<and>
   kstr_get demo_a = Some (c_text [CHR ''a'', nul, CHR ''b'']) \<and>
   c_string (replicate 1024 (CHR ''x'')) \<and> (\<forall>n. alloc_ok demo_env n) \<and>
   length (replicate 1024 (CHR ''x'')) + 2 \<le> (2::nat) ^ 64 \<and>
   (\<exists>s. kstr_new demo_env (Some (replicate 1024 (CHR ''x''))) = Some (Inr s) \<and>
      kstr_get s = Some (replicate 1024 (CHR ''x''))) \<and>
   (\<exists>s. kstr_new demo_env None = Some (Inr s) \<and> kstr_get s = Some [])"
proof -
  note a = new_get_c_string [of "''ab''" demo_env]
  note b = new_get_c_string [of "replicate 1024 (CHR ''x'')" demo_env]
  note c = new_get_c_string [of "[CHR ''a'', nul, CHR ''b'']" demo_env]
  from a c_string_ab demo_new have 1: "kstr_get demo_ab = Some ''ab''" by simp
  from b c_string_kib demo_alloc
  have 2: "\<exists>s. kstr_new demo_env (Some (replicate 1024 (CHR ''x''))) = Some (Inr s) \<and>
      kstr_get s = Some (replicate 1024 (CHR ''x''))"
    and 3: "\<exists>s. kstr_new demo_env None = Some (Inr s) \<and> kstr_get s = Some []"
    by auto
  have l: "length (c_text [CHR ''a'', nul, CHR ''b'']) < (2::nat) ^ 64"
    by (simp add: demo_c_text)
  from c l demo_new_a have 4: "kstr_get demo_a = Some (c_text [CHR ''a'', nul, CHR ''b''])"
    by simp
  from 1 2 3 4 l c_string_ab demo_new demo_new_a c_string_kib demo_alloc show ?thesis
    by simp
qed

text \<open>
  C4.  As stated the claim fails after a formatted append whose rendering holds a nul
  byte: after \<^verbatim>\<open>kstr_new(NULL)\<close> and \<^verbatim>\<open>kstr_add_fmt(s, "%c", 0)\<close> the size is 2, while
  \<^verbatim>\<open>kstr_get\<close> reads the empty string, of length 0.
\<close>

theorem size_get_counterexample:
  "kstr_new demo_env None = Some (Inr demo_empty) \<and>
   kstr_calls [(demo_env, Add_fmt (Some (Renders [nul])))] demo_empty = Some (Inr demo_fmt_nul) \<and>
   kstr_get demo_fmt_nul = Some [] \<and>
   unat (kstr_size demo_fmt_nul) \<noteq> length ([] :: string) + 1"
  using demo_new_null demo_add_fmt_nul demo_get_fmt_nul
  by (simp add: kstr_size_def demo_fmt_nul_def)

text \<open>
  C4, amended.  In every state reached from \<^verbatim>\<open>kstr_new\<close> by a sequence of calls, the size
  is the number of content bytes plus one for the terminator; and when no formatted
  rendering of the sequence holds a nul byte, \<^verbatim>\<open>kstr_get\<close> reads all of the content, so
  that the size is the byte length of \<^verbatim>\<open>kstr_get\<close> plus one.
\<close>

theorem size_is_get_length_plus_one:
  "kstr_new e0 t = Some (Inr s0) \<and> kstr_calls cs s0 = Some (Inr s) \<longrightarrow>
     unat (kstr_size s) = length (kstr_bytes s) + 1 \<and>
     ((\<forall>c \<in> set (map snd cs). \<not> renders_nul c) \<longrightarrow>
        kstr_get s = Some (kstr_bytes s) \<and>
        (\<exists>g. kstr_get s = Some g \<and> unat (kstr_size s) = length g + 1))"
proof (intro impI)
  assume a: "kstr_new e0 t = Some (Inr s0) \<and> kstr_calls cs s0 = Some (Inr s)"
  with new_cases [of e0 t] have inv0: "kstr_inv s0"
    and b0: "kstr_bytes s0 = take (unat (strlen (text_of t))) (text_of t)"
    by auto
  from a have run: "kstr_calls cs s0 = Some (Inr s)" by simp
  have inv: "kstr_inv s" by (rule calls_inv [OF inv0 run])
  have sz: "unat (kstr_size s) = length (kstr_bytes s) + 1" by (rule size_bytes [OF inv])
  have nf0: "nul \<notin> set (kstr_bytes s0)" by (simp add: b0 take_strlen_nul_free)
  show "unat (kstr_size s) = length (kstr_bytes s) + 1 \<and>
     ((\<forall>c \<in> set (map snd cs). \<not> renders_nul c) \<longrightarrow>
        kstr_get s = Some (kstr_bytes s) \<and>
        (\<exists>g. kstr_get s = Some g \<and> unat (kstr_size s) = length g + 1))"
  proof (intro conjI impI)
    show "unat (kstr_size s) = length (kstr_bytes s) + 1" by (rule sz)
  next
    assume "\<forall>c \<in> set (map snd cs). \<not> renders_nul c"
    from calls_nul_free [OF inv0 nf0 run this]
    show g: "kstr_get s = Some (kstr_bytes s)" by (rule get_bytes [OF inv])
    with sz show "\<exists>g. kstr_get s = Some g \<and> unat (kstr_size s) = length g + 1" by simp
  qed
qed

theorem size_is_get_length_plus_one_witness:
  "kstr_new demo_env (Some ''ab'') = Some (Inr demo_ab) \<and>
   kstr_calls [(demo_env, Add_bold True)] demo_ab = Some (Inr demo_ab_bold) \<and>
   \<not> renders_nul (Add_bold True) \<and>
   kstr_get demo_ab_bold = Some (''ab'' @ ESC # ''[1m'') \<and>
   unat (kstr_size demo_ab_bold) = length (''ab'' @ ESC # ''[1m'') + 1"
  using size_is_get_length_plus_one [of demo_env "Some ''ab''" demo_ab
      "[(demo_env, Add_bold True)]" demo_ab_bold]
    demo_new demo_calls demo_get_bold
  by auto

text \<open>
  C5.  On every live string whose cache is coherent (as it is after \<^verbatim>\<open>kstr_new\<close> and
  after every call, and stays after \<^verbatim>\<open>kstr_basename\<close> itself), \<^verbatim>\<open>kstr_basename\<close> aborts or
  returns the POSIX basename of the current content, the string that \<^verbatim>\<open>kstr_get\<close>
  returns, and caches it; it does not abort when the allocator never refuses.  In
  particular it returns the basename of the text a string was made from, with \<open>file\<close>
  for \<open>/one/two/file\<close>, a dot for the empty value, a separator for \<open>/\<close> and a dot for
  a dot.  The result is cached: a second call, with no mutation in between, returns the
  same value and leaves the object as it is, on any host, even one that refuses every
  allocation the computation would need.  And after \<^verbatim>\<open>kstr_set_text\<close> with a new value
  the next call returns the basename of the new value, whatever was cached before.
\<close>

theorem basename_posix_cached:
  "(kstr_new e t = Some (Inl Abort) \<or>
      (\<exists>s0. kstr_new e t = Some (Inr s0) \<and> kstr_inv s0 \<and> cache_ok s0)) \<and>
   (kstr_inv s \<and> cache_ok s \<longrightarrow>
      kstr_call e c s = Some (Inl Abort) \<or>
      (\<exists>s1. kstr_call e c s = Some (Inr s1) \<and> kstr_inv s1 \<and> cache_ok s1)) \<and>
   (kstr_inv s \<and> cache_ok s \<longrightarrow>
      kstr_basename e s = Inl Abort \<or>
      (\<exists>g. kstr_get s = Some g \<and>
         kstr_basename e s =
           Inr (posix_basename g, s\<lparr>basename := Some (posix_basename g)\<rparr>) \<and>
         kstr_inv (s\<lparr>basename := Some (posix_basename g)\<rparr>) \<and>
         cache_ok (s\<lparr>basename := Some (posix_basename g)\<rparr>))) \<and>
   (kstr_inv s \<and> (\<forall>n. alloc_ok e n) \<longrightarrow> kstr_basename e s \<noteq> Inl Abort) \<and>
   (c_string T \<and> kstr_new e (Some T) = Some (Inr s) \<and> kstr_basename e1 s = Inr (b, s') \<longrightarrow>
      b = posix_basename T) \<and>
   (kstr_new e None = Some (Inr s) \<and> kstr_basename e1 s = Inr (b, s') \<longrightarrow> b = ''.'') \<and>
   posix_basename ''/one/two/file'' = ''file'' \<and> posix_basename '''' = ''.'' \<and>
   posix_basename ''/'' = ''/'' \<and> posix_basename ''.'' = ''.'' \<and>
   (kstr_basename e1 s = Inr (b, s') \<longrightarrow> kstr_basename e2 s' = Inr (b, s')) \<and>
   (kstr_inv s \<and> c_string v \<and> kstr_set_text e s (Some v) = Some (Inr s1) \<and>
      kstr_basename e1 s1 = Inr (b1, s2) \<longrightarrow> b1 = posix_basename v) \<and>
   (kstr_inv s \<longrightarrow>
      kstr_basename e s = Inl Abort \<or> (\<exists>b s'. kstr_basename e s = Inr (b, s')))"
proof (intro conjI impI)
  show "kstr_new e t = Some (Inl Abort) \<or>
      (\<exists>s0. kstr_new e t = Some (Inr s0) \<and> kstr_inv s0 \<and> cache_ok s0)"
    by (rule new_cache)
next
  assume "kstr_inv s \<and> cache_ok s"
  then show "kstr_call e c s = Some (Inl Abort) \<or>
      (\<exists>s1. kstr_call e c s = Some (Inr s1) \<and> kstr_inv s1 \<and> cache_ok s1)"
    by (intro call_cache_ok) simp_all
next
  assume "kstr_inv s \<and> cache_ok s"
  then show "kstr_basename e s = Inl Abort \<or>
      (\<exists>g. kstr_get s = Some g \<and>
         kstr_basename e s =
           Inr (posix_basename g, s\<lparr>basename := Some (posix_basename g)\<rparr>) \<and>
         kstr_inv (s\<lparr>basename := Some (posix_basename g)\<rparr>) \<and>
         cache_ok (s\<lparr>basename := Some (posix_basename g)\<rparr>))"
    by (intro basename_live) simp_all
next
  assume "kstr_inv s \<and> (\<forall>n. alloc_ok e n)"
  then show "kstr_basename e s \<noteq> Inl Abort"
    by (intro basename_no_abort) simp_all
next
  assume a: "c_string T \<and> kstr_new e (Some T) = Some (Inr s) \<and>
    kstr_basename e1 s = Inr (b, s')"
  then have cs: "c_string T" by simp
  from new_c_string [OF cs, of e] a have inv: "kstr_inv s" and bt: "kstr_bytes s = T"
    by auto
  from cs bt have nf: "nul \<notin> set (kstr_bytes s)" by (simp add: c_string_def)
  have "basename s = None"
    using a new_basename [of e "Some T" s] by simp
  from basename_fresh [OF inv nf this, of e1] a show "b = posix_basename T"
    by (auto simp: bt)
next
  assume a: "kstr_new e None = Some (Inr s) \<and> kstr_basename e1 s = Inr (b, s')"
  from new_null [of e] a have inv: "kstr_inv s" and bt: "kstr_bytes s = []"
    by auto
  have "basename s = None"
    using a new_basename [of e None s] by simp
  from basename_fresh [OF inv _ this, of e1] a show "b = ''.''"
    by (auto simp: bt posix_basename_def)
next
  assume "kstr_basename e1 s = Inr (b, s')"
  from basename_result_cached [OF this] show "kstr_basename e2 s' = Inr (b, s')"
    by (rule basename_cached)
next
  assume a: "kstr_inv s \<and> c_string v \<and> kstr_set_text e s (Some v) = Some (Inr s1) \<and>
      kstr_basename e1 s1 = Inr (b1, s2)"
  then have "kstr_inv s" "c_string v" "kstr_set_text e s (Some v) = Some (Inr s1)"
    by simp_all
  from set_text_c_string [OF this] have s1: "kstr_inv s1" "kstr_bytes s1 = v"
    "basename s1 = None" by simp_all
  from a s1(2) have nf: "nul \<notin> set (kstr_bytes s1)" by (simp add: c_string_def)
  from basename_fresh [OF s1(1) nf s1(3), of e1] a show "b1 = posix_basename v"
    by (auto simp: s1(2))
next
  assume "kstr_inv s"
  then show "kstr_basename e s = Inl Abort \<or> (\<exists>b s'. kstr_basename e s = Inr (b, s'))"
    by (rule basename_total)
qed (simp_all add: posix_basename_examples)


theorem basename_posix_cached_witness:
  "c_string ''/one/two/file'' \<and>
   kstr_new demo_env (Some ''/one/two/file'') = Some (Inr demo_path) \<and>
   kstr_basename demo_env demo_path = Inr (''file'', demo_path_cached) \<and>
   ''file'' = posix_basename ''/one/two/file'' \<and>
   kstr_basename no_memory demo_path_cached = Inr (''file'', demo_path_cached) \<and>
   kstr_inv demo_path_cached \<and> c_string ''/four/five/six'' \<and>
   kstr_set_text demo_env demo_path_cached (Some ''/four/five/six'') = Some (Inr demo_six) \<and>
   kstr_basename demo_env demo_six = Inr (''six'', demo_six\<lparr>basename := Some ''six''\<rparr>) \<and>
   ''six'' = posix_basename ''/four/five/six'' \<and>
   kstr_new demo_env None = Some (Inr demo_empty) \<and>
   kstr_basename demo_env demo_empty = Inr (''.'', demo_empty\<lparr>basename := Some ''.''\<rparr>) \<and>
   kstr_inv demo_ab_bold \<and> cache_ok demo_ab_bold \<and> (\<forall>n. alloc_ok demo_env n) \<and>
   kstr_get demo_ab_bold = Some (''ab'' @ ESC # ''[1m'') \<and>
   kstr_basename demo_env demo_ab_bold =
     Inr (''ab'' @ ESC # ''[1m'', demo_ab_bold\<lparr>basename := Some (''ab'' @ ESC # ''[1m'')\<rparr>)"
proof -
  note a = basename_posix_cached [where T = "''/one/two/file''" and e = demo_env
      and s = demo_path and ?e1.0 = demo_env and b = "''file''" and s' = demo_path_cached
      and ?e2.0 = no_memory]
  note b = basename_posix_cached [where s = demo_path_cached and e = demo_env
      and v = "''/four/five/six''" and ?s1.0 = demo_six and ?e1.0 = demo_env
      and ?b1.0 = "''six''" and ?s2.0 = "demo_six\<lparr>basename := Some ''six''\<rparr>"]
  note c = basename_posix_cached [where s = demo_ab_bold and e = demo_env]
  from a c_string_paths(1) demo_new_path demo_basename_path
  have 1: "''file'' = posix_basename ''/one/two/file''"
    and 2: "kstr_basename no_memory demo_path_cached = Inr (''file'', demo_path_cached)"
    by blast+
  from b demo_inv_cached c_string_paths(2) demo_set_six demo_basename_six
  have 3: "''six'' = posix_basename ''/four/five/six''" by blast
  from c demo_inv_bold demo_cache_bold demo_alloc
  have "\<exists>g. kstr_get demo_ab_bold = Some g \<and>
      kstr_basename demo_env demo_ab_bold =
        Inr (posix_basename g, demo_ab_bold\<lparr>basename := Some (posix_basename g)\<rparr>)"
    by blast
  with demo_get_bold demo_basename_code
  have 4: "kstr_basename demo_env demo_ab_bold =
     Inr (''ab'' @ ESC # ''[1m'', demo_ab_bold\<lparr>basename := Some (''ab'' @ ESC # ''[1m'')\<rparr>)"
    by auto
  from 1 2 3 4 c_string_paths demo_new_path demo_basename_path demo_inv_cached demo_set_six
    demo_basename_six demo_new_null demo_basename_empty demo_inv_bold demo_cache_bold
    demo_alloc demo_get_bold
  show ?thesis by blast
qed

text \<open>
  C6.  Every mutating call on a live string aborts or returns, and when it returns the
  cached basename is empty, except for the pure no-ops, which return the very same
  object: appending an absent text or an empty text returns the object unchanged, so
  that its content, its width and its cached basename are what they were.  No call
  aborts when the buffer has room for what it adds, or when the allocator never refuses
  and the result fits a \<^verbatim>\<open>size_t\<close>.  (A formatted append that renders nothing is not a
  pure no-op: it empties the cache.)
\<close>

theorem mutation_invalidates_cache:
  "(kstr_inv s \<longrightarrow>
      kstr_call e c s = Some (Inl Abort) \<or>
      (\<exists>s1. kstr_call e c s = Some (Inr s1) \<and>
         (if no_op_input c then s1 = s else basename s1 = None))) \<and>
   (kstr_inv s \<and> in_enum c \<and>
      (call_needs c s \<le> unat (data_size s) \<or>
       (\<forall>n. alloc_ok e n) \<and> call_needs c s \<le> 2 ^ 64 - 1) \<longrightarrow>
      kstr_call e c s \<noteq> Some (Inl Abort)) \<and>
   (kstr_call e c s = Some (Inr s') \<longrightarrow>
      (if no_op_input c then s' = s else basename s' = None)) \<and>
   kstr_add_text e s None = Some (Inr s) \<and>
   kstr_add_text e s (Some []) = Some (Inr s) \<and>
   no_op_input (Add_text None) \<and> no_op_input (Add_text (Some []))"
proof (intro conjI impI)
  assume "kstr_inv s"
  then show "kstr_call e c s = Some (Inl Abort) \<or>
      (\<exists>s1. kstr_call e c s = Some (Inr s1) \<and>
         (if no_op_input c then s1 = s else basename s1 = None))"
    by (rule call_cache)
next
  assume "kstr_inv s \<and> in_enum c \<and>
      (call_needs c s \<le> unat (data_size s) \<or>
       (\<forall>n. alloc_ok e n) \<and> call_needs c s \<le> 2 ^ 64 - 1)"
  then show "kstr_call e c s \<noteq> Some (Inl Abort)"
    by (intro call_no_abort) simp_all
next
  assume "kstr_call e c s = Some (Inr s')"
  then show "if no_op_input c then s' = s else basename s' = None"
    by (rule call_basename)
qed (simp_all add: add_text_nothing strlen_def text_of_def)

theorem mutation_invalidates_cache_witness:
  "kstr_inv demo_path_cached \<and> basename demo_path_cached = Some ''file'' \<and>
   kstr_call demo_env (Set_text (Some ''/four/five/six'')) demo_path_cached =
     Some (Inr demo_six) \<and>
   \<not> no_op_input (Set_text (Some ''/four/five/six'')) \<and> basename demo_six = None \<and>
   in_enum (Add_fmt (Some (Renders ''xyz''))) \<and>
   call_needs (Add_fmt (Some (Renders ''xyz''))) demo_path_cached
     \<le> unat (data_size demo_path_cached) \<and>
   (\<exists>s1. kstr_call no_memory (Add_fmt (Some (Renders ''xyz''))) demo_path_cached =
      Some (Inr s1) \<and> basename s1 = None)"
proof -
  note a = mutation_invalidates_cache [where s = demo_path_cached and e = demo_env
      and c = "Set_text (Some ''/four/five/six'')" and s' = demo_six]
  note b = mutation_invalidates_cache [where s = demo_path_cached and e = no_memory
      and c = "Add_fmt (Some (Renders ''xyz''))" and s' = demo_six]
  have c: "basename demo_path_cached = Some ''file''" by (simp add: demo_path_cached_def)
  from a demo_set_six have 1: "basename demo_six = None" by simp
  from b demo_inv_cached demo_needs_fmt_cached
  have 2: "\<exists>s1. kstr_call no_memory (Add_fmt (Some (Renders ''xyz''))) demo_path_cached =
      Some (Inr s1) \<and> basename s1 = None"
    by auto
  from demo_inv_cached c demo_set_six 1 demo_needs_fmt_cached 2 show ?thesis by simp
qed

text \<open>
  C7.  On a host that refuses a request for the maximum size \<open>2 ^ 64 - 1\<close> (as every
  host does: a buffer cannot fill the address space that also holds the string object),
  \<^verbatim>\<open>kstr_grow\<close> aborts or returns the object with its capacity doubled, with \<open>used\<close>,
  \<open>width\<close> and the cached basename unchanged and the bytes of the old buffer, so the
  first \<open>used\<close> bytes, unchanged.  It aborts when the capacity is already the maximum
  size and when doubling would overflow; the only other abort is a refused request for
  the doubled size.
\<close>

theorem grow_doubles_or_aborts:
  "\<not> alloc_ok e (2 ^ 64 - 1) \<longrightarrow>
     (kstr_grow e s = Inl Abort \<or>
      (\<exists>s'. kstr_grow e s = Inr s' \<and>
         unat (data_size s') = 2 * unat (data_size s) \<and>
         used s' = used s \<and> width s' = width s \<and> basename s' = basename s \<and>
         (length (data s) = unat (data_size s) \<longrightarrow>
            take (length (data s)) (data s') = data s \<and>
            length (data s') = unat (data_size s') \<and>
            (used s \<le> data_size s \<longrightarrow>
               take (unat (used s)) (data s') = take (unat (used s)) (data s))))) \<and>
     (data_size s = - 1 \<or> 2 ^ 64 \<le> 2 * unat (data_size s) \<longrightarrow>
        kstr_grow e s = Inl Abort) \<and>
     (kstr_grow e s = Inl Abort \<longleftrightarrow>
        data_size s = - 1 \<or> 2 ^ 64 \<le> 2 * unat (data_size s) \<or>
        \<not> alloc_ok e (2 * unat (data_size s)))"
proof
  assume r: "\<not> alloc_ok e (2 ^ 64 - 1)"
  note ab = grow_abort_refusing [OF r, of s]
  have 1: "kstr_grow e s = Inl Abort \<or>
      (\<exists>s'. kstr_grow e s = Inr s' \<and>
         unat (data_size s') = 2 * unat (data_size s) \<and>
         used s' = used s \<and> width s' = width s \<and> basename s' = basename s \<and>
         (length (data s) = unat (data_size s) \<longrightarrow>
            take (length (data s)) (data s') = data s \<and>
            length (data s') = unat (data_size s') \<and>
            (used s \<le> data_size s \<longrightarrow>
               take (unat (used s)) (data s') = take (unat (used s)) (data s))))"
  proof (cases "kstr_grow e s = Inl Abort")
    case True
    then show ?thesis by simp
  next
    case False
    with grow_total [of e s] obtain s' where g: "kstr_grow e s = Inr s'" by blast
    note res = grow_result [OF g]
    have keep: "length (data s) = unat (data_size s) \<longrightarrow>
            take (length (data s)) (data s') = data s \<and>
            length (data s') = unat (data_size s') \<and>
            (used s \<le> data_size s \<longrightarrow>
               take (unat (used s)) (data s') = take (unat (used s)) (data s))"
    proof (intro impI conjI)
      assume l: "length (data s) = unat (data_size s)"
      note k = grow_keeps_content [OF g l]
      show "take (length (data s)) (data s') = data s" by (rule k(1))
      show "length (data s') = unat (data_size s')" by (rule k(2))
      assume "used s \<le> data_size s"
      then have u: "unat (used s) \<le> length (data s)" using l by (simp add: word_le_nat_alt)
      have "take (unat (used s)) (take (length (data s)) (data s')) =
          take (unat (used s)) (data s)"
        by (simp only: k(1))
      with u show "take (unat (used s)) (data s') = take (unat (used s)) (data s)"
        by (simp add: min_absorb1)
    qed
    from g grow_doubles_refusing [OF r g] res(3,4,5) keep show ?thesis by blast
  qed
  from ab have 2: "data_size s = - 1 \<or> 2 ^ 64 \<le> 2 * unat (data_size s) \<longrightarrow>
        kstr_grow e s = Inl Abort"
    by blast
  from 1 2 ab show "(kstr_grow e s = Inl Abort \<or>
      (\<exists>s'. kstr_grow e s = Inr s' \<and>
         unat (data_size s') = 2 * unat (data_size s) \<and>
         used s' = used s \<and> width s' = width s \<and> basename s' = basename s \<and>
         (length (data s) = unat (data_size s) \<longrightarrow>
            take (length (data s)) (data s') = data s \<and>
            length (data s') = unat (data_size s') \<and>
            (used s \<le> data_size s \<longrightarrow>
               take (unat (used s)) (data s') = take (unat (used s)) (data s))))) \<and>
     (data_size s = - 1 \<or> 2 ^ 64 \<le> 2 * unat (data_size s) \<longrightarrow>
        kstr_grow e s = Inl Abort) \<and>
     (kstr_grow e s = Inl Abort \<longleftrightarrow>
        data_size s = - 1 \<or> 2 ^ 64 \<le> 2 * unat (data_size s) \<or>
        \<not> alloc_ok e (2 * unat (data_size s)))"
    by blast
qed

theorem grow_doubles_or_aborts_witness:
  "\<not> alloc_ok demo_host (2 ^ 64 - 1) \<and>
   kstr_grow demo_host demo_ab = Inr demo_ab_grown \<and>
   unat (data_size demo_ab_grown) = 2 * unat (data_size demo_ab) \<and>
   length (data demo_ab) = unat (data_size demo_ab) \<and>
   used demo_ab \<le> data_size demo_ab \<and>
   take (unat (used demo_ab)) (data demo_ab_grown) = take (unat (used demo_ab)) (data demo_ab) \<and>
   data_size demo_huge_grown = - 1 \<and> kstr_grow demo_host demo_huge_grown = Inl Abort \<and>
   (2::nat) ^ 64 \<le> 2 * unat (data_size demo_huge) \<and>
   kstr_grow demo_host demo_huge = Inl Abort \<and>
   \<not> alloc_ok no_memory (2 * unat (data_size demo_ab)) \<and>
   kstr_grow no_memory demo_ab = Inl Abort"
proof -
  note a = grow_doubles_or_aborts [of demo_host demo_ab]
  note b = grow_doubles_or_aborts [of demo_host demo_huge_grown]
  note c = grow_doubles_or_aborts [of demo_host demo_huge]
  note d = grow_doubles_or_aborts [of no_memory demo_ab]
  have l: "length (data demo_ab) = unat (data_size demo_ab)"
    by (simp add: demo_ab_def demo_uninit)
  have u: "used demo_ab \<le> data_size demo_ab" by (simp add: demo_ab_def)
  from a demo_host_refuses demo_host_grow_ab l u
  have 1: "unat (data_size demo_ab_grown) = 2 * unat (data_size demo_ab)"
    and 2: "take (unat (used demo_ab)) (data demo_ab_grown) =
      take (unat (used demo_ab)) (data demo_ab)"
    by auto
  from b demo_host_refuses demo_max_size
  have 3: "kstr_grow demo_host demo_huge_grown = Inl Abort" by blast
  have o: "(2::nat) ^ 64 \<le> 2 * unat (data_size demo_huge)" by (simp add: demo_huge_size)
  from c demo_host_refuses o have 4: "kstr_grow demo_host demo_huge = Inl Abort" by blast
  have nm: "\<not> alloc_ok no_memory (2 ^ 64 - 1)"
    "\<not> alloc_ok no_memory (2 * unat (data_size demo_ab))"
    by (simp_all add: no_memory_def)
  from d nm have 5: "kstr_grow no_memory demo_ab = Inl Abort" by blast
  from demo_host_refuses demo_host_grow_ab 1 l u 2 demo_max_size 3 o 4 nm(2) 5
  show ?thesis by blast
qed

text \<open>
  C8.  With a null format string \<^verbatim>\<open>kstr_add_fmt\<close> returns normally, on any host, and adds
  nothing: what it returns is the object with its content, size and width as they were
  (and its cache emptied).  \<^verbatim>\<open>kstr_set_fmt\<close> with a null format string returns normally
  too, with the empty content, size 1 and width 0.
\<close>

theorem null_format_is_empty:
  "kstr_inv s \<longrightarrow>
     kstr_add_fmt e s None = Some (Inr (s\<lparr>basename := None\<rparr>)) \<and>
     kstr_get (s\<lparr>basename := None\<rparr>) = kstr_get s \<and>
     kstr_size (s\<lparr>basename := None\<rparr>) = kstr_size s \<and>
     kstr_width (s\<lparr>basename := None\<rparr>) = kstr_width s \<and>
     (\<exists>s'. kstr_set_fmt e s None = Some (Inr s') \<and>
        kstr_get s' = Some [] \<and> kstr_size s' = 1 \<and> kstr_width s' = 0)"
proof
  assume inv: "kstr_inv s"
  from set_vfmt_nothing [OF inv null_format_fails(2), of e]
  have "\<exists>s'. kstr_set_fmt e s None = Some (Inr s') \<and>
        kstr_get s' = Some [] \<and> kstr_size s' = 1 \<and> kstr_width s' = 0"
    by (auto simp: kstr_set_fmt_def)
  then show "kstr_add_fmt e s None = Some (Inr (s\<lparr>basename := None\<rparr>)) \<and>
     kstr_get (s\<lparr>basename := None\<rparr>) = kstr_get s \<and>
     kstr_size (s\<lparr>basename := None\<rparr>) = kstr_size s \<and>
     kstr_width (s\<lparr>basename := None\<rparr>) = kstr_width s \<and>
     (\<exists>s'. kstr_set_fmt e s None = Some (Inr s') \<and>
        kstr_get s' = Some [] \<and> kstr_size s' = 1 \<and> kstr_width s' = 0)"
    by (simp add: kstr_add_fmt_def add_vfmt_nothing [OF inv null_format_fails(2)]
        uncached_same)
qed

theorem null_format_is_empty_witness:
  "kstr_inv demo_path_cached \<and>
   kstr_add_fmt no_memory demo_path_cached None = Some (Inr demo_path) \<and>
   kstr_get demo_path = kstr_get demo_path_cached \<and>
   kstr_size demo_path = kstr_size demo_path_cached \<and>
   kstr_width demo_path = kstr_width demo_path_cached \<and>
   (\<exists>s'. kstr_set_fmt no_memory demo_path_cached None = Some (Inr s') \<and>
      kstr_get s' = Some [] \<and> kstr_size s' = 1 \<and> kstr_width s' = 0)"
  using null_format_is_empty [of demo_path_cached no_memory] demo_inv_cached
  by (simp add: demo_uncache)

text \<open>
  C9.  The colour enumeration has the nine values 0 to 8 in the order default, black,
  blue, cyan, green, magenta, red, white, yellow.  For each of them \<^verbatim>\<open>kstr_add_fg\<close> and
  \<^verbatim>\<open>kstr_add_bg\<close> append exactly the escape sequence of its table entry (or abort when the
  buffer cannot grow; they do not abort when five bytes are free), \<^verbatim>\<open>kstr_add_bold\<close>
  appends exactly \<open>ESC [ 1 m\<close> or \<open>ESC [ 2 2 m\<close>, and \<^verbatim>\<open>kstr_add_reset\<close> appends exactly
  \<open>ESC [ 0 m\<close>; none of the appended bytes counts for the width.  A colour value
  outside the enumeration makes \<^verbatim>\<open>kstr_add_fg\<close> and \<^verbatim>\<open>kstr_add_bg\<close> abort.
\<close>

theorem styling_codes_exact:
  "[kstr_color_default, kstr_color_black, kstr_color_blue, kstr_color_cyan,
    kstr_color_green, kstr_color_magenta, kstr_color_red, kstr_color_white,
    kstr_color_yellow] = [0, 1, 2, 3, 4, 5, 6, 7, 8] \<and>
   (kstr_inv s \<longrightarrow>
      (\<forall>(c, fg, bg) \<in> set
          [(kstr_color_default, ESC # ''[39m'', ESC # ''[49m''),
           (kstr_color_black, ESC # ''[30m'', ESC # ''[40m''),
           (kstr_color_blue, ESC # ''[34m'', ESC # ''[44m''),
           (kstr_color_cyan, ESC # ''[36m'', ESC # ''[46m''),
           (kstr_color_green, ESC # ''[32m'', ESC # ''[42m''),
           (kstr_color_magenta, ESC # ''[35m'', ESC # ''[45m''),
           (kstr_color_red, ESC # ''[31m'', ESC # ''[41m''),
           (kstr_color_white, ESC # ''[37m'', ESC # ''[47m''),
           (kstr_color_yellow, ESC # ''[33m'', ESC # ''[43m'')].
         code_appended (kstr_add_fg e s c) s fg \<and>
         code_appended (kstr_add_bg e s c) s bg \<and>
         (\<not> kstr_available s < 5 \<longrightarrow>
            kstr_add_fg e s c \<noteq> Some (Inl Abort) \<and>
            kstr_add_bg e s c \<noteq> Some (Inl Abort))) \<and>
      code_appended (kstr_add_bold e s True) s (ESC # ''[1m'') \<and>
      code_appended (kstr_add_bold e s False) s (ESC # ''[22m'') \<and>
      code_appended (kstr_add_reset e s) s (ESC # ''[0m'') \<and>
      (\<not> kstr_available s < 5 \<longrightarrow>
         kstr_add_bold e s b \<noteq> Some (Inl Abort) \<and>
         kstr_add_reset e s \<noteq> Some (Inl Abort))) \<and>
   ((c < 0 \<or> 9 \<le> c) \<and> - (2 ^ 63) \<le> c \<and> c < 2 ^ 64 \<longrightarrow>
      kstr_add_fg e s c = Some (Inl Abort) \<and> kstr_add_bg e s c = Some (Inl Abort))"
proof (intro conjI impI)
  show "[kstr_color_default, kstr_color_black, kstr_color_blue, kstr_color_cyan,
    kstr_color_green, kstr_color_magenta, kstr_color_red, kstr_color_white,
    kstr_color_yellow] = [0, 1, 2, 3, 4, 5, 6, 7, 8]"
    by (rule color_values)
next
  assume inv: "kstr_inv s"
  have fg: "\<And>c. code_appended (kstr_add_fg e s c) s (call_bytes (Add_fg c))"
    and bg: "\<And>c. code_appended (kstr_add_bg e s c) s (call_bytes (Add_bg c))"
    by (rule fg_appended [OF inv], rule bg_appended [OF inv])
  have ret: "\<not> kstr_available s < 5 \<Longrightarrow> 0 \<le> c \<Longrightarrow> c < 9 \<Longrightarrow>
      kstr_add_fg e s c \<noteq> Some (Inl Abort) \<and> kstr_add_bg e s c \<noteq> Some (Inl Abort)" for c
    using styling_returns(3,4) [OF inv, of c e] by simp
  have rng: "\<forall>c \<in> set [kstr_color_default, kstr_color_black, kstr_color_blue,
      kstr_color_cyan, kstr_color_green, kstr_color_magenta, kstr_color_red,
      kstr_color_white, kstr_color_yellow]. 0 \<le> c \<and> c < 9"
    unfolding color_values by simp
  show "\<forall>(c, fg, bg) \<in> set
          [(kstr_color_default, ESC # ''[39m'', ESC # ''[49m''),
           (kstr_color_black, ESC # ''[30m'', ESC # ''[40m''),
           (kstr_color_blue, ESC # ''[34m'', ESC # ''[44m''),
           (kstr_color_cyan, ESC # ''[36m'', ESC # ''[46m''),
           (kstr_color_green, ESC # ''[32m'', ESC # ''[42m''),
           (kstr_color_magenta, ESC # ''[35m'', ESC # ''[45m''),
           (kstr_color_red, ESC # ''[31m'', ESC # ''[41m''),
           (kstr_color_white, ESC # ''[37m'', ESC # ''[47m''),
           (kstr_color_yellow, ESC # ''[33m'', ESC # ''[43m'')].
         code_appended (kstr_add_fg e s c) s fg \<and>
         code_appended (kstr_add_bg e s c) s bg \<and>
         (\<not> kstr_available s < 5 \<longrightarrow>
            kstr_add_fg e s c \<noteq> Some (Inl Abort) \<and>
            kstr_add_bg e s c \<noteq> Some (Inl Abort))"
    using rng ret
    by (simp add: fg_table [symmetric] bg_table [symmetric] fg [simplified] bg [simplified])
  show "code_appended (kstr_add_bold e s True) s (ESC # ''[1m'')"
    using bold_appended [OF inv, of e True] by simp
  show "code_appended (kstr_add_bold e s False) s (ESC # ''[22m'')"
    using bold_appended [OF inv, of e False] by simp
  show "code_appended (kstr_add_reset e s) s (ESC # ''[0m'')"
    using reset_appended [OF inv, of e] by simp
  assume room: "\<not> kstr_available s < 5"
  show "kstr_add_bold e s b \<noteq> Some (Inl Abort)" "kstr_add_reset e s \<noteq> Some (Inl Abort)"
    by (rule styling_returns [OF inv room])+
next
  assume a: "(c < 0 \<or> 9 \<le> c) \<and> - (2 ^ 63) \<le> c \<and> c < 2 ^ 64"
  then show "kstr_add_fg e s c = Some (Inl Abort)" "kstr_add_bg e s c = Some (Inl Abort)"
    by (simp_all add: color_abort)
qed


theorem styling_codes_exact_witness:
  "kstr_inv demo_ab \<and> \<not> kstr_available demo_ab < 5 \<and>
   code_appended (kstr_add_fg demo_env demo_ab kstr_color_red) demo_ab (ESC # ''[31m'') \<and>
   kstr_add_fg demo_env demo_ab kstr_color_red = Some (Inr demo_ab_red) \<and>
   kstr_bytes demo_ab_red = kstr_bytes demo_ab @ ESC # ''[31m'' \<and>
   kstr_add_bold demo_env demo_ab True \<noteq> Some (Inl Abort) \<and>
   ((9 :: int) < 0 \<or> (9 :: int) \<le> 9) \<and> - (2 ^ 63) \<le> (9 :: int) \<and> (9 :: int) < 2 ^ 64 \<and>
   kstr_add_fg demo_env demo_ab 9 = Some (Inl Abort) \<and>
   kstr_add_bg demo_env demo_ab (- 1) = Some (Inl Abort)"
proof -
  note a = styling_codes_exact [where s = demo_ab and e = demo_env and b = True and c = 9]
  note b = styling_codes_exact [where s = demo_ab and e = demo_env and b = True and c = "- 1"]
  have room: "\<not> kstr_available demo_ab < 5"
    by (simp add: kstr_available_def demo_ab_def)
  from a demo_inv
  have 1: "code_appended (kstr_add_fg demo_env demo_ab kstr_color_red) demo_ab (ESC # ''[31m'')"
    by simp
  from a demo_inv room have 2: "kstr_add_bold demo_env demo_ab True \<noteq> Some (Inl Abort)"
    by simp
  from a have 3: "kstr_add_fg demo_env demo_ab 9 = Some (Inl Abort)" by simp
  from b have 4: "kstr_add_bg demo_env demo_ab (- 1) = Some (Inl Abort)" by simp
  from 1 demo_add_red have 5: "kstr_bytes demo_ab_red = kstr_bytes demo_ab @ ESC # ''[31m''"
    by (simp add: code_appended_def)
  from demo_inv room 1 demo_add_red 5 2 3 4 show ?thesis by simp
qed

text \<open>
  C10.  When the dry run of \<^verbatim>\<open>kstr_add_fmt\<close> reports a negative length, the call adds no
  byte: it returns normally, on any host, the object it was given with the buffer, the
  content, the size and the width as they were, and with the cached basename discarded.
\<close>

theorem failed_render_appends_nothing:
  "kstr_inv s \<and> vsnprintf_ret fmt < 0 \<longrightarrow>
     kstr_add_fmt e s fmt = Some (Inr (s\<lparr>basename := None\<rparr>)) \<and>
     data (s\<lparr>basename := None\<rparr>) = data s \<and>
     kstr_get (s\<lparr>basename := None\<rparr>) = kstr_get s \<and>
     kstr_size (s\<lparr>basename := None\<rparr>) = kstr_size s \<and>
     kstr_width (s\<lparr>basename := None\<rparr>) = kstr_width s \<and>
     basename (s\<lparr>basename := None\<rparr>) = None"
proof
  assume a: "kstr_inv s \<and> vsnprintf_ret fmt < 0"
  then have inv: "kstr_inv s" and r: "rendered_length fmt = 0"
    by (simp_all add: failed_render_nothing)
  show "kstr_add_fmt e s fmt = Some (Inr (s\<lparr>basename := None\<rparr>)) \<and>
     data (s\<lparr>basename := None\<rparr>) = data s \<and>
     kstr_get (s\<lparr>basename := None\<rparr>) = kstr_get s \<and>
     kstr_size (s\<lparr>basename := None\<rparr>) = kstr_size s \<and>
     kstr_width (s\<lparr>basename := None\<rparr>) = kstr_width s \<and>
     basename (s\<lparr>basename := None\<rparr>) = None"
    by (simp add: kstr_add_fmt_def add_vfmt_nothing [OF inv r] uncached_same)
qed

theorem failed_render_appends_nothing_witness:
  "kstr_inv demo_path_cached \<and> vsnprintf_ret (Some Render_fails) < 0 \<and>
   basename demo_path_cached = Some ''file'' \<and>
   kstr_add_fmt no_memory demo_path_cached (Some Render_fails) = Some (Inr demo_path) \<and>
   data demo_path = data demo_path_cached \<and>
   kstr_get demo_path = kstr_get demo_path_cached \<and>
   kstr_size demo_path = kstr_size demo_path_cached \<and>
   kstr_width demo_path = kstr_width demo_path_cached \<and>
   basename demo_path = None"
  using failed_render_appends_nothing [of demo_path_cached "Some Render_fails" no_memory]
    demo_inv_cached
  by (simp add: demo_uncache vsnprintf_ret_def) (simp add: demo_path_cached_def)

end
